theory Spec2Isabelle
  imports Complex_Main
begin

section \<open>Strings: extension removal, URI encoding, decimal rendering\<close>

text \<open>
  JavaScript strings are modelled as \<^typ>\<open>string\<close>. The functions of this section only
  look for the characters \<open>.\<close>, \<open>/\<close> and \<open>_\<close> and for the ASCII letters, digits and marks,
  so a file name may be read as its UTF-8 bytes (a name with an unpaired surrogate, on
  which \<^verbatim>\<open>encodeURIComponent\<close> throws, is not a string of the model).
\<close>

text \<open>
  \<^verbatim>\<open>s.replace(/\.[^/.]+$/, "")\<close> (Processing.tsx line 39, api.ts line 66): the leftmost
  position holding a dot that is followed, up to the end of the string, by one or more
  characters other than \<open>/\<close> and \<open>.\<close>; the string is cut there. No such position: the string
  is returned unchanged.
\<close>

fun removeExtension :: "string \<Rightarrow> string" where
  "removeExtension [] = []"
| "removeExtension (c # cs) =
     (if c = CHR ''.'' \<and> cs \<noteq> [] \<and> list_all (\<lambda>x. x \<noteq> CHR ''/'' \<and> x \<noteq> CHR ''.'') cs
      then [] else c # removeExtension cs)"

text \<open>\<^verbatim>\<open>s.split(sep)\<close> for a one-character separator: never the empty array.\<close>

fun js_split :: "char \<Rightarrow> string \<Rightarrow> string list" where
  "js_split sep [] = [[]]"
| "js_split sep (c # cs) =
     (if c = sep then [] # js_split sep cs
      else (c # hd (js_split sep cs)) # tl (js_split sep cs))"

text \<open>
  \<^verbatim>\<open>encodeURIComponent\<close>: every byte is kept when it is an ASCII letter, a digit or one
  of \<open>- _ . ! ~ * ' ( )\<close>, and written as \<open>%\<close> and two upper-case hexadecimal digits
  otherwise.
\<close>

definition hexDigit :: "nat \<Rightarrow> char" where
  "hexDigit n = (if n < 10 then char_of (48 + n) else char_of (55 + n))"

definition unreserved :: "char \<Rightarrow> bool" where
  "unreserved c \<longleftrightarrow>
     (let n = (of_char c :: nat) in
      (65 \<le> n \<and> n \<le> 90) \<or> (97 \<le> n \<and> n \<le> 122) \<or> (48 \<le> n \<and> n \<le> 57) \<or>
      n \<in> {45, 95, 46, 33, 126, 42, 39, 40, 41})"

definition encodeChar :: "char \<Rightarrow> string" where
  "encodeChar c =
     (if unreserved c then [c]
      else [CHR ''%'', hexDigit ((of_char c :: nat) div 16), hexDigit ((of_char c :: nat) mod 16)])"

definition encodeURIComponent :: "string \<Rightarrow> string" where
  "encodeURIComponent s = concat (map encodeChar s)"

text \<open>The decimal digits of a non-negative integer, as a template literal renders it.\<close>

fun toDecimal :: "nat \<Rightarrow> string" where
  "toDecimal n =
     (if n < 10 then [char_of (48 + n)] else toDecimal (n div 10) @ [char_of (48 + n mod 10)])"

declare toDecimal.simps [simp del]

text \<open>Processing.tsx lines 38-40.\<close>

definition getShareableId :: "string \<Rightarrow> string" where
  "getShareableId filename = encodeURIComponent (removeExtension filename)"

text \<open>
  api.ts lines 64-67, \<^verbatim>\<open>uploadVideo\<close>: the name under which the file is sent, from the
  name of the chosen file and the value of \<^verbatim>\<open>Date.now()\<close>.
\<close>

definition fileExtension :: "string \<Rightarrow> string" where
  "fileExtension name = last (js_split CHR ''.'' name)"

definition newFileName :: "string \<Rightarrow> nat \<Rightarrow> string" where
  "newFileName name timestamp =
     removeExtension name @ ''_'' @ toDecimal timestamp @ ''.'' @ fileExtension name"

section \<open>The processing page\<close>

subsection \<open>State\<close>

datatype status = Waiting | Processing | Completed | Error

record ProcessingStep =
  step_id :: string
  step_name :: string
  status :: status
  progress :: int

text \<open>What one render of the page sees: the route state and the React state.\<close>

record render =
  filename :: "string option"
  steps :: "ProcessingStep list"
  currentStepIndex :: nat
  isProcessingStarted :: bool
  isBrollProcessing :: bool

definition initialSteps :: "ProcessingStep list" where
  "initialSteps =
     [\<lparr>step_id = ''upload'', step_name = ''Video Upload'',
         status = Completed, progress = 100\<rparr>,
      \<lparr>step_id = ''transcription'', step_name = ''Generating Transcription'',
         status = Processing, progress = 0\<rparr>,
      \<lparr>step_id = ''captions'', step_name = ''Creating Captions'',
         status = Waiting, progress = 0\<rparr>,
      \<lparr>step_id = ''broll'', step_name = ''Finding B-Roll Footage'',
         status = Waiting, progress = 0\<rparr>,
      \<lparr>step_id = ''rendering'', step_name = ''Rendering Final Video'',
         status = Waiting, progress = 0\<rparr>]"

definition initialRender :: "string option \<Rightarrow> render" where
  "initialRender fn =
     \<lparr>filename = fn, steps = initialSteps, currentStepIndex = 0,
      isProcessingStarted = False, isBrollProcessing = False\<rparr>"

subsection \<open>The backend's answers\<close>

text \<open>
  Each function of api.ts performs one request; it throws when the request fails or the
  response is not ok, and returns the parsed JSON body otherwise.
\<close>

datatype 'a response = Throws | Returns 'a

text \<open>
  The value of \<^verbatim>\<open>transcript.text\<close>: missing or falsy, a string, or a truthy value that is
  not a string.
\<close>

datatype jsfield = Absent | Text string | NonText

text \<open>
  The JSON value \<^verbatim>\<open>getTranscript\<close> resolves to: a string, \<^verbatim>\<open>null\<close>, or any other value,
  given by its \<^verbatim>\<open>text\<close> property and its \<^verbatim>\<open>JSON.stringify\<close> rendering.
\<close>

datatype transcript = TString string | TNull | TObject jsfield string

text \<open>
  The JSON value \<^verbatim>\<open>getFinalVideoUrl\<close> resolves to: \<^verbatim>\<open>null\<close>, or an object with its
  \<^verbatim>\<open>share_id\<close> (\<^const>\<open>None\<close> when missing) and its \<^verbatim>\<open>final_video_url\<close>.
\<close>

datatype final_video_data = FVNull | FVObject "string option" string

text \<open>
  The backend seen from one run of the page. The two polled functions are given by the
  number of the attempt, the value of the counter (\<^verbatim>\<open>attempts\<close>,
  \<^verbatim>\<open>finalVideoAttempts\<close>) when the call is made; \<^verbatim>\<open>getBRoll\<close> by its prompt.
\<close>

record env =
  generateCaptions_res :: bool
  getTranscript_res :: "nat \<Rightarrow> transcript response"
  getBRoll_res :: "string \<Rightarrow> bool"
  generateFinalVideo_res :: bool
  getFinalVideoUrl_res :: "nat \<Rightarrow> final_video_data response"

subsection \<open>Effects\<close>

text \<open>
  What the asynchronous functions of the page do, in order: an awaited call of api.ts with
  its outcome (\<^const>\<open>True\<close> when it returned), a state update (for \<^verbatim>\<open>setSteps\<close> the
  assignments its updater makes), a toast by its title, a navigation by its path, and a
  timer with its callback and delay. The events of the callback follow the timer.
\<close>

datatype api = GenerateCaptions | GetTranscript | GetBRoll string | GenerateFinalVideo
  | GetFinalVideoUrl

datatype field_update = Status nat status | Progress nat int

datatype callback = CheckTranscriptStatus | CheckFinalVideoStatus | NavigateToPreview

datatype event =
    Invoke api bool
  | SetSteps "field_update list"
  | SetCurrentStepIndex nat
  | SetIsProcessingStarted bool
  | SetIsBrollProcessing bool
  | Toast string
  | Navigate string
  | SetTimeout callback nat

datatype js_error = TypeError

subsection \<open>Progress formulas\<close>

definition maxAttempts :: nat where
  "maxAttempts = 20"

definition maxFinalVideoAttempts :: nat where
  "maxFinalVideoAttempts = 30"

text \<open>Line 424: \<^verbatim>\<open>Math.min(10 + (attempts * 5), 95)\<close>.\<close>

definition transcriptionProgress :: "nat \<Rightarrow> int" where
  "transcriptionProgress attempts = min (10 + int attempts * 5) 95"

text \<open>
  Lines 248 and 380:
  \<^verbatim>\<open>Math.min(10 + Math.floor((finalVideoAttempts / maxFinalVideoAttempts) * 85), 95)\<close>,
  the quotient and the product taken in the reals.
\<close>

definition renderingProgress :: "nat \<Rightarrow> int" where
  "renderingProgress finalVideoAttempts =
     min (10 + \<lfloor>(real finalVideoAttempts / real maxFinalVideoAttempts) * 85\<rfloor>) 95"

text \<open>
  Lines 462-463: \<^verbatim>\<open>Math.round(totalProgress / steps.length)\<close>; \<^verbatim>\<open>Math.round\<close> rounds a
  half upwards.
\<close>

definition overallProgress :: "ProcessingStep list \<Rightarrow> int" where
  "overallProgress ss =
     \<lfloor>real_of_int (sum_list (map progress ss)) / real (length ss) + 1 / 2\<rfloor>"

subsection \<open>The B-roll prompt\<close>

text \<open>
  Lines 146-151, the text the prompt is made from. A \<^verbatim>\<open>null\<close> transcript raises at line
  148 and a truthy \<^verbatim>\<open>text\<close> that is not a string at line 151, both before the B-roll call;
  \<^verbatim>\<open>slice(0, 100)\<close> cuts the JSON rendering only.
\<close>

fun transcriptText :: "transcript \<Rightarrow> js_error + string" where
  "transcriptText (TString s) = Inr s"
| "transcriptText TNull = Inl TypeError"
| "transcriptText (TObject (Text s) json) = (if s \<noteq> [] then Inr s else Inr (take 100 json))"
| "transcriptText (TObject Absent json) = Inr (take 100 json)"
| "transcriptText (TObject NonText json) = Inl TypeError"

text \<open>Line 151.\<close>

definition brollPrompt :: "string \<Rightarrow> string" where
  "brollPrompt text =
     ''High quality visual scene representing: '' @ hd (js_split CHR ''.'' text)"

subsection \<open>The pipeline\<close>

definition previewPath :: "string \<Rightarrow> string" where
  "previewPath videoId = ''/preview/'' @ videoId"

text \<open>
  \<^verbatim>\<open>checkFinalVideoStatus\<close>, lines 184-258 and, the same text again, lines 316-390. The
  argument is the value of the counter \<^verbatim>\<open>finalVideoAttempts\<close> when the function is
  entered; a timer that is set fires.
\<close>

function checkFinalVideoStatus :: "env \<Rightarrow> string \<Rightarrow> nat \<Rightarrow> event list" where
  "checkFinalVideoStatus e fname finalVideoAttempts =
     (if finalVideoAttempts \<ge> maxFinalVideoAttempts then
        [Toast ''Rendering Warning'',
         SetSteps [Status 4 Completed, Progress 4 100],
         Navigate (previewPath (getShareableId fname))]
      else
        (case getFinalVideoUrl_res e (finalVideoAttempts + 1) of
           Returns (FVObject shareId url) \<Rightarrow>
             [Invoke GetFinalVideoUrl True,
              SetSteps [Status 4 Completed, Progress 4 100],
              SetTimeout NavigateToPreview 1000,
              Navigate (previewPath
                (case shareId of
                   Some s \<Rightarrow> if s \<noteq> [] then s else getShareableId fname
                 | None \<Rightarrow> getShareableId fname))]
         | Returns FVNull \<Rightarrow>
             [Invoke GetFinalVideoUrl True,
              SetSteps [Status 4 Completed, Progress 4 100],
              SetSteps [Progress 4 (renderingProgress (finalVideoAttempts + 1))],
              SetTimeout CheckFinalVideoStatus 3000]
             @ checkFinalVideoStatus e fname (finalVideoAttempts + 1)
         | Throws \<Rightarrow>
             [Invoke GetFinalVideoUrl False,
              SetSteps [Progress 4 (renderingProgress (finalVideoAttempts + 1))],
              SetTimeout CheckFinalVideoStatus 3000]
             @ checkFinalVideoStatus e fname (finalVideoAttempts + 1)))"
  by pat_completeness auto
termination
  by (relation "measure (\<lambda>(e, f, a). maxFinalVideoAttempts - a)") auto

declare checkFinalVideoStatus.simps [simp del]

text \<open>Lines 174-285 after the B-roll call, and lines 306-417 after its failure.\<close>

definition startFinalVideoGeneration :: "env \<Rightarrow> string \<Rightarrow> event list" where
  "startFinalVideoGeneration e fname =
     (if generateFinalVideo_res e then
        Invoke GenerateFinalVideo True # checkFinalVideoStatus e fname 0
      else
        [Invoke GenerateFinalVideo False,
         Toast ''Rendering Error'',
         SetSteps [Status 4 Error, Progress 4 100],
         SetTimeout NavigateToPreview 1500,
         Navigate (previewPath (getShareableId fname))])"

text \<open>
  \<^verbatim>\<open>checkTranscriptStatus\<close>, lines 81-434. \<open>c\<close> is the render whose effect created the
  closure: \<^verbatim>\<open>isBrollProcessing\<close> is read from it.
\<close>

function checkTranscriptStatus :: "env \<Rightarrow> render \<Rightarrow> string \<Rightarrow> nat \<Rightarrow> event list" where
  "checkTranscriptStatus e c fname attempts =
     (if attempts \<ge> maxAttempts then
        [Toast ''Transcript Processing Warning'',
         SetSteps [Status 1 Completed, Progress 1 100, Status 2 Completed, Progress 2 100,
                   Status 3 Completed, Progress 3 100, Status 4 Processing, Progress 4 0],
         SetCurrentStepIndex 4]
      else
        (case getTranscript_res e (attempts + 1) of
           Throws \<Rightarrow>
             [Invoke GetTranscript False,
              SetSteps [Progress 1 (transcriptionProgress (attempts + 1))],
              SetTimeout CheckTranscriptStatus 3000]
             @ checkTranscriptStatus e c fname (attempts + 1)
         | Returns t \<Rightarrow>
             [Invoke GetTranscript True,
              SetSteps [Status 1 Completed, Progress 1 100, Status 2 Completed, Progress 2 100,
                        Status 3 Processing, Progress 3 0],
              SetCurrentStepIndex 3]
             @ (if isBrollProcessing c then []
                else
                  SetIsBrollProcessing True #
                  (case transcriptText t of
                     Inl err \<Rightarrow>
                       [SetSteps [Progress 1 (transcriptionProgress (attempts + 1))],
                        SetTimeout CheckTranscriptStatus 3000]
                       @ checkTranscriptStatus e c fname (attempts + 1)
                   | Inr text \<Rightarrow>
                       (if getBRoll_res e (brollPrompt text) then
                          [Invoke (GetBRoll (brollPrompt text)) True,
                           SetSteps [Status 3 Completed, Progress 3 100,
                                     Status 4 Processing, Progress 4 10],
                           SetCurrentStepIndex 4]
                          @ startFinalVideoGeneration e fname
                        else
                          [Invoke (GetBRoll (brollPrompt text)) False,
                           SetSteps [Status 3 Error, Progress 3 100,
                                     Status 4 Processing, Progress 4 10],
                           SetCurrentStepIndex 4]
                          @ startFinalVideoGeneration e fname)))))"
  by pat_completeness auto
termination
  by (relation "measure (\<lambda>(e, c, f, a). maxAttempts - a)") auto

declare checkTranscriptStatus.simps [simp del]

text \<open>\<^verbatim>\<open>initiateProcessing\<close>, lines 62-447.\<close>

definition initiateProcessing :: "env \<Rightarrow> render \<Rightarrow> string \<Rightarrow> event list" where
  "initiateProcessing e c fname =
     (if isProcessingStarted c then []
      else
        SetIsProcessingStarted True #
        (if generateCaptions_res e then
           Invoke GenerateCaptions True # checkTranscriptStatus e c fname 0
         else [Invoke GenerateCaptions False, Toast ''Processing error'']))"

text \<open>The effect of lines 48-458, run by a render \<open>c\<close>.\<close>

definition processingEffect :: "env \<Rightarrow> render \<Rightarrow> event list" where
  "processingEffect e c =
     (case filename c of
        None \<Rightarrow> [Toast ''Processing error'', Navigate ''/create'']
      | Some fname \<Rightarrow>
          if fname = [] then [Toast ''Processing error'', Navigate ''/create'']
          else initiateProcessing e c fname)"

subsection \<open>React state after the effects\<close>

text \<open>
  \<^verbatim>\<open>newSteps[i].status = v\<close> and \<^verbatim>\<open>newSteps[i].progress = v\<close> inside a \<^verbatim>\<open>setSteps\<close> updater.
  The page always holds five steps and the updaters write to the indices 1 to 4.
\<close>

fun apply_update :: "ProcessingStep list \<Rightarrow> field_update \<Rightarrow> ProcessingStep list" where
  "apply_update ss (Status i v) = ss[i := (ss ! i)\<lparr>status := v\<rparr>]"
| "apply_update ss (Progress i v) = ss[i := (ss ! i)\<lparr>progress := v\<rparr>]"

fun apply_event :: "render \<Rightarrow> event \<Rightarrow> render" where
  "apply_event r (SetSteps us) = r\<lparr>steps := foldl apply_update (steps r) us\<rparr>"
| "apply_event r (SetCurrentStepIndex i) = r\<lparr>currentStepIndex := i\<rparr>"
| "apply_event r (SetIsProcessingStarted b) = r\<lparr>isProcessingStarted := b\<rparr>"
| "apply_event r (SetIsBrollProcessing b) = r\<lparr>isBrollProcessing := b\<rparr>"
| "apply_event r (Invoke a ok) = r"
| "apply_event r (Toast t) = r"
| "apply_event r (Navigate p) = r"
| "apply_event r (SetTimeout cb ms) = r"

text \<open>The state after every update of a list of events has been applied.\<close>

definition queued :: "render \<Rightarrow> event list \<Rightarrow> render" where
  "queued r evs = foldl apply_event r evs"

text \<open>
  What the page shows. React applies the state updates of an asynchronous function in
  batches: the updates made since the last await or timer are rendered together when the
  function awaits again, sets a timer, or ends. A navigation unmounts the page, and the
  updates batched with it are never rendered: where \<^verbatim>\<open>navigate\<close> follows \<^verbatim>\<open>setSteps\<close> with
  no timer in between (lines 195-204 and 327-336), the page is last seen as it was at the
  last poll.
\<close>

record view =
  shown :: render
  pending :: render
  mounted :: bool

fun view_event :: "view \<Rightarrow> event \<Rightarrow> view" where
  "view_event v (Navigate p) = v\<lparr>mounted := False\<rparr>"
| "view_event v (Invoke a ok) = (if mounted v then v\<lparr>shown := pending v\<rparr> else v)"
| "view_event v (SetTimeout cb ms) = (if mounted v then v\<lparr>shown := pending v\<rparr> else v)"
| "view_event v (Toast t) = v"
| "view_event v (SetSteps us) =
     (if mounted v then v\<lparr>pending := apply_event (pending v) (SetSteps us)\<rparr> else v)"
| "view_event v (SetCurrentStepIndex i) =
     (if mounted v then v\<lparr>pending := apply_event (pending v) (SetCurrentStepIndex i)\<rparr> else v)"
| "view_event v (SetIsProcessingStarted b) =
     (if mounted v then v\<lparr>pending := apply_event (pending v) (SetIsProcessingStarted b)\<rparr>
      else v)"
| "view_event v (SetIsBrollProcessing b) =
     (if mounted v then v\<lparr>pending := apply_event (pending v) (SetIsBrollProcessing b)\<rparr>
      else v)"

text \<open>
  The state of the last render after the events \<open>evs\<close>, from a page that shows \<open>r\<close>: the
  pending updates reach the screen when the page is still mounted at the end.
\<close>

definition commit :: "render \<Rightarrow> event list \<Rightarrow> render" where
  "commit r evs =
     (let v = foldl view_event \<lparr>shown = r, pending = r, mounted = True\<rparr> evs
      in if mounted v then pending v else shown v)"

section \<open>Observations on a run\<close>

text \<open>
  A run of the effect is the list of its events in the order in which they happen. The
  adapter calls of a run with their outcomes, the paths it navigates to, and the delays of
  the timers that schedule another poll (the timers that delay a navigation are left out).
\<close>

fun invocations :: "event list \<Rightarrow> (api \<times> bool) list" where
  "invocations [] = []"
| "invocations (Invoke a ok # evs) = (a, ok) # invocations evs"
| "invocations (ev # evs) = invocations evs"

fun navigations :: "event list \<Rightarrow> string list" where
  "navigations [] = []"
| "navigations (Navigate p # evs) = p # navigations evs"
| "navigations (ev # evs) = navigations evs"


text \<open>The statuses a run assigns to the steps, by index of the step, in order.\<close>

fun status_assignments :: "field_update list \<Rightarrow> (nat \<times> status) list" where
  "status_assignments [] = []"
| "status_assignments (Status i v # us) = (i, v) # status_assignments us"
| "status_assignments (Progress i v # us) = status_assignments us"

fun status_updates :: "event list \<Rightarrow> (nat \<times> status) list" where
  "status_updates [] = []"
| "status_updates (SetSteps us # evs) = status_assignments us @ status_updates evs"
| "status_updates (ev # evs) = status_updates evs"


text \<open>
  The events of one failed transcript poll, of one final-video poll that throws, and of
  the two exhausted budgets.
\<close>

definition transcriptRetry :: "nat \<Rightarrow> event list" where
  "transcriptRetry k =
     [Invoke GetTranscript False, SetSteps [Progress 1 (transcriptionProgress k)],
      SetTimeout CheckTranscriptStatus 3000]"

definition renderingRetry :: "nat \<Rightarrow> event list" where
  "renderingRetry k =
     [Invoke GetFinalVideoUrl False, SetSteps [Progress 4 (renderingProgress k)],
      SetTimeout CheckFinalVideoStatus 3000]"

definition transcriptExhausted :: "event list" where
  "transcriptExhausted =
     [Toast ''Transcript Processing Warning'',
      SetSteps [Status 1 Completed, Progress 1 100, Status 2 Completed, Progress 2 100,
                Status 3 Completed, Progress 3 100, Status 4 Processing, Progress 4 0],
      SetCurrentStepIndex 4]"

definition renderingExhausted :: "string \<Rightarrow> event list" where
  "renderingExhausted fname =
     [Toast ''Rendering Warning'', SetSteps [Status 4 Completed, Progress 4 100],
      Navigate (previewPath (getShareableId fname))]"

text \<open>The events of a fetched transcript, and of a failed B-roll call.\<close>

definition transcriptFetched :: "event list" where
  "transcriptFetched =
     [Invoke GetTranscript True,
      SetSteps [Status 1 Completed, Progress 1 100, Status 2 Completed, Progress 2 100,
                Status 3 Processing, Progress 3 0],
      SetCurrentStepIndex 3]"


text \<open>A poll of the final video succeeds when it resolves to an object.\<close>

fun ready :: "final_video_data response \<Rightarrow> bool" where
  "ready (Returns (FVObject shareId url)) = True"
| "ready _ = False"

text \<open>Predicates on events and steps that hold along every run.\<close>

fun valid_update :: "field_update \<Rightarrow> bool" where
  "valid_update (Progress i v) = (0 \<le> v \<and> v \<le> 100)"
| "valid_update (Status i v) = True"

fun valid_event :: "event \<Rightarrow> bool" where
  "valid_event (SetSteps us) = list_all valid_update us"
| "valid_event _ = True"

definition in_range :: "ProcessingStep list \<Rightarrow> bool" where
  "in_range ss = list_all (\<lambda>s. 0 \<le> progress s \<and> progress s \<le> 100) ss"


fun stage_call :: "event \<Rightarrow> bool" where
  "stage_call (Invoke (GetBRoll p) ok) = True"
| "stage_call (Invoke GenerateFinalVideo ok) = True"
| "stage_call (Invoke GetTranscript ok) = True"
| "stage_call _ = False"

text \<open>The characters of a decimal numeral.\<close>

definition digit :: "char \<Rightarrow> bool" where
  "digit c \<longleftrightarrow> 48 \<le> (of_char c :: nat) \<and> (of_char c :: nat) \<le> 57"

text \<open>
  The calls of a run in order: a B-roll call comes after a transcript fetch that
  succeeded, a final-video generation call comes after a B-roll call. The flags say
  whether such a call has happened before the list starts.
\<close>

definition ordered_after :: "bool \<Rightarrow> bool \<Rightarrow> event list \<Rightarrow> bool" where
  "ordered_after t b evs \<longleftrightarrow>
     (\<forall>pre ev post. evs = pre @ ev # post \<longrightarrow>
        ((\<exists>p ok. ev = Invoke (GetBRoll p) ok) \<longrightarrow> t \<or> Invoke GetTranscript True \<in> set pre) \<and>
        ((\<exists>ok. ev = Invoke GenerateFinalVideo ok) \<longrightarrow>
           b \<or> (\<exists>p ok. Invoke (GetBRoll p) ok \<in> set pre)))"

section \<open>Example runs\<close>

text \<open>Five backends and the first render of the page, used to evaluate concrete runs.\<close>

definition env_stalled :: env where
  "env_stalled =
     \<lparr>generateCaptions_res = True, getTranscript_res = (\<lambda>k. Throws),
      getBRoll_res = (\<lambda>p. False), generateFinalVideo_res = True,
      getFinalVideoUrl_res = (\<lambda>k. Throws)\<rparr>"

definition env_degraded :: env where
  "env_degraded =
     \<lparr>generateCaptions_res = True,
      getTranscript_res = (\<lambda>k. if k < 3 then Throws else Returns (TString ''Hi there. You'')),
      getBRoll_res = (\<lambda>p. False), generateFinalVideo_res = True,
      getFinalVideoUrl_res =
        (\<lambda>k. if k < 3 then Throws else Returns (FVObject (Some ''xyz'') ''/final/a.mp4''))\<rparr>"

definition env_render_timeout :: env where
  "env_render_timeout =
     \<lparr>generateCaptions_res = True,
      getTranscript_res = (\<lambda>k. Returns (TString ''Hi there. You'')),
      getBRoll_res = (\<lambda>p. True), generateFinalVideo_res = True,
      getFinalVideoUrl_res = (\<lambda>k. Throws)\<rparr>"

definition env_ready :: env where
  "env_ready =
     \<lparr>generateCaptions_res = True,
      getTranscript_res = (\<lambda>k. Returns (TString ''Hi there. You'')),
      getBRoll_res = (\<lambda>p. True), generateFinalVideo_res = True,
      getFinalVideoUrl_res = (\<lambda>k. Returns (FVObject (Some ''xyz'') ''/final/a.mp4''))\<rparr>"


definition r0 :: render where
  "r0 = initialRender (Some ''a.mp4'')"

section \<open>Progress values\<close>

lemma transcriptionProgress_range: "0 \<le> transcriptionProgress a \<and> transcriptionProgress a \<le> 100"
  by (simp add: transcriptionProgress_def)

lemma renderingProgress_div:
  "renderingProgress a = min (10 + int (a * 85 div 30)) 95"
proof -
  have "(real a / real maxFinalVideoAttempts) * 85 = real (a * 85) / real 30"
    by (simp add: maxFinalVideoAttempts_def)
  then have "\<lfloor>(real a / real maxFinalVideoAttempts) * 85\<rfloor> = int (a * 85 div 30)"
    by (simp only: floor_divide_of_nat_eq)
  then show ?thesis by (simp add: renderingProgress_def)
qed

lemma renderingProgress_range: "0 \<le> renderingProgress a \<and> renderingProgress a \<le> 100"
  by (simp add: renderingProgress_div)

lemma queued_append: "queued r (xs @ ys) = queued (queued r xs) ys"
  by (simp add: queued_def)

lemma queued_Nil: "queued r [] = r"
  by (simp add: queued_def)

lemma queued_Cons: "queued r (ev # evs) = queued (apply_event r ev) evs"
  by (simp add: queued_def)

lemma in_range_update:
  assumes "in_range ss" "0 \<le> progress s \<and> progress s \<le> 100"
  shows "in_range (ss[i := s])"
  using assms unfolding in_range_def list_all_iff
  by (metis insert_iff set_update_subset_insert subsetD)

lemma apply_update_in_range:
  assumes "in_range ss" "valid_update u"
  shows "in_range (apply_update ss u)"
proof (cases u)
  case (Status i v)
  show ?thesis
  proof (cases "i < length ss")
    case True
    then have "0 \<le> progress (ss ! i) \<and> progress (ss ! i) \<le> 100"
      using assms(1) by (simp add: in_range_def list_all_length)
    then show ?thesis using Status assms(1) by (simp add: in_range_update)
  next
    case False
    then show ?thesis using Status assms(1) by (simp add: list_update_beyond)
  qed
next
  case (Progress i v)
  then show ?thesis using assms by (simp add: in_range_update)
qed

lemma foldl_apply_update_in_range:
  "in_range ss \<Longrightarrow> list_all valid_update us \<Longrightarrow> in_range (foldl apply_update ss us)"
  by (induction us arbitrary: ss) (simp_all add: apply_update_in_range)

lemma apply_event_in_range:
  "in_range (steps r) \<Longrightarrow> valid_event ev \<Longrightarrow> in_range (steps (apply_event r ev))"
  by (cases ev) (simp_all add: foldl_apply_update_in_range)

lemma queued_in_range:
  "in_range (steps r) \<Longrightarrow> list_all valid_event evs \<Longrightarrow> in_range (steps (queued r evs))"
  by (induction evs arbitrary: r) (simp_all add: queued_Nil queued_Cons apply_event_in_range)

lemma length_apply_update: "length (apply_update ss u) = length ss"
  by (cases u) simp_all

lemma length_foldl_apply_update: "length (foldl apply_update ss us) = length ss"
  by (induction us arbitrary: ss) (simp_all add: length_apply_update)

lemma length_steps_apply_event: "length (steps (apply_event r ev)) = length (steps r)"
  by (cases ev) (simp_all add: length_foldl_apply_update)

lemma length_steps_queued: "length (steps (queued r evs)) = length (steps r)"
  by (induction evs arbitrary: r) (simp_all add: queued_Nil queued_Cons length_steps_apply_event)

lemma view_event_in_range:
  assumes "in_range (steps (shown v))" and "in_range (steps (pending v))" and "valid_event ev"
  shows "in_range (steps (shown (view_event v ev))) \<and>
         in_range (steps (pending (view_event v ev)))"
  using assms apply_event_in_range [of "pending v" ev] by (cases ev) simp_all

lemma foldl_view_event_in_range:
  "in_range (steps (shown v)) \<Longrightarrow> in_range (steps (pending v)) \<Longrightarrow> list_all valid_event evs \<Longrightarrow>
   in_range (steps (shown (foldl view_event v evs))) \<and>
   in_range (steps (pending (foldl view_event v evs)))"
proof (induction evs arbitrary: v)
  case Nil
  then show ?case by simp
next
  case (Cons ev evs)
  have "in_range (steps (shown (view_event v ev))) \<and>
      in_range (steps (pending (view_event v ev)))"
    using Cons.prems by (intro view_event_in_range) simp_all
  then show ?case using Cons.IH [of "view_event v ev"] Cons.prems by simp
qed

lemma commit_in_range:
  assumes "in_range (steps r)" and "list_all valid_event evs"
  shows "in_range (steps (commit r evs))"
  using foldl_view_event_in_range [of "\<lparr>shown = r, pending = r, mounted = True\<rparr>" evs] assms
  by (simp add: commit_def Let_def)

lemma view_event_length:
  assumes "length (steps (shown v)) = n" and "length (steps (pending v)) = n"
  shows "length (steps (shown (view_event v ev))) = n \<and>
         length (steps (pending (view_event v ev))) = n"
  using assms length_steps_apply_event [of "pending v" ev] by (cases ev) simp_all

lemma foldl_view_event_length:
  "length (steps (shown v)) = n \<Longrightarrow> length (steps (pending v)) = n \<Longrightarrow>
   length (steps (shown (foldl view_event v evs))) = n \<and>
   length (steps (pending (foldl view_event v evs))) = n"
proof (induction evs arbitrary: v)
  case Nil
  then show ?case by simp
next
  case (Cons ev evs)
  have "length (steps (shown (view_event v ev))) = n \<and>
      length (steps (pending (view_event v ev))) = n"
    using Cons.prems by (intro view_event_length) simp_all
  then show ?case using Cons.IH [of "view_event v ev"] by simp
qed

lemma length_steps_commit: "length (steps (commit r evs)) = length (steps r)"
  using foldl_view_event_length [of "\<lparr>shown = r, pending = r, mounted = True\<rparr>" "length (steps r)" evs]
  by (simp add: commit_def Let_def)

lemma foldl_view_event_no_navigation:
  "navigations evs = [] \<Longrightarrow> mounted v \<Longrightarrow>
   mounted (foldl view_event v evs) \<and> pending (foldl view_event v evs) = queued (pending v) evs"
proof (induction evs arbitrary: v)
  case Nil
  then show ?case by (simp add: queued_Nil)
next
  case (Cons ev evs)
  have nav: "navigations evs = []" and ev: "\<forall>p. ev \<noteq> Navigate p"
    using Cons.prems(1) by (cases ev; simp)+
  have m: "mounted (view_event v ev)" and p: "pending (view_event v ev) = apply_event (pending v) ev"
    using Cons.prems(2) ev by (cases ev; simp)+
  show ?case using Cons.IH [OF nav m] p by (simp add: queued_Cons)
qed

lemma commit_no_navigation: "navigations evs = [] \<Longrightarrow> commit r evs = queued r evs"
  using foldl_view_event_no_navigation [of evs "\<lparr>shown = r, pending = r, mounted = True\<rparr>"]
  by (simp add: commit_def Let_def)

lemma valid_checkFinalVideoStatus: "list_all valid_event (checkFinalVideoStatus e f a)"
proof (induction e f a rule: checkFinalVideoStatus.induct)
  case (1 e f a)
  show ?case
    using 1 renderingProgress_range [of "a + 1"]
    by (subst checkFinalVideoStatus.simps)
       (auto split: response.splits final_video_data.splits)
qed

lemma valid_startFinalVideoGeneration: "list_all valid_event (startFinalVideoGeneration e f)"
  by (simp add: startFinalVideoGeneration_def valid_checkFinalVideoStatus)

lemma valid_checkTranscriptStatus: "list_all valid_event (checkTranscriptStatus e c f a)"
proof (induction e c f a rule: checkTranscriptStatus.induct)
  case (1 e c f a)
  show ?case
    using 1 transcriptionProgress_range [of "a + 1"]
    by (subst checkTranscriptStatus.simps)
       (auto split: response.splits sum.splits simp: valid_startFinalVideoGeneration)
qed

lemma valid_processingEffect: "list_all valid_event (processingEffect e c)"
  by (simp add: processingEffect_def initiateProcessing_def valid_checkTranscriptStatus
      split: option.splits)

lemma list_all_take: "list_all P xs \<Longrightarrow> list_all P (take n xs)"
  by (meson in_set_takeD list_all_iff)

lemma sum_progress_bounds:
  "in_range ss \<Longrightarrow> 0 \<le> sum_list (map progress ss) \<and> sum_list (map progress ss) \<le> 100 * int (length ss)"
  by (induction ss) (auto simp: in_range_def)

lemma overallProgress_range:
  assumes "in_range ss" "ss \<noteq> []"
  shows "0 \<le> overallProgress ss \<and> overallProgress ss \<le> 100"
proof -
  let ?t = "sum_list (map progress ss)"
  let ?n = "length ss"
  have n: "0 < real ?n" using assms(2) by simp
  have b: "0 \<le> ?t" "?t \<le> 100 * int ?n" using sum_progress_bounds [OF assms(1)] by auto
  have q0: "0 \<le> real_of_int ?t / real ?n" using b(1) by simp
  have "real_of_int ?t \<le> 100 * real ?n" using b(2)
    by (metis of_int_le_iff of_int_mult of_int_numeral of_int_of_nat_eq)
  then have q1: "real_of_int ?t / real ?n \<le> 100" using n by (simp add: divide_le_eq)
  have "0 \<le> \<lfloor>real_of_int ?t / real ?n + 1 / 2\<rfloor>" using q0 by simp
  moreover have "\<lfloor>real_of_int ?t / real ?n + 1 / 2\<rfloor> \<le> 100" using q1 by linarith
  ultimately show ?thesis by (simp add: overallProgress_def)
qed

lemma in_range_initialSteps: "in_range initialSteps"
  by (simp add: in_range_def initialSteps_def)

text \<open>
  C7. Every progress value the page shows lies between 0 and 100: the transcription
  formula and the rendering formula at every attempt count, the progress of every step
  after any number of the effects of a run, and the overall progress computed from these
  steps.
\<close>

theorem progress_within_0_100:
  "(0 \<le> transcriptionProgress a \<and> transcriptionProgress a \<le> 100) \<and>
   (0 \<le> renderingProgress b \<and> renderingProgress b \<le> 100) \<and>
   (let r = commit (initialRender fn) (take n (processingEffect e (initialRender fn)))
    in (\<forall>s \<in> set (steps r). 0 \<le> progress s \<and> progress s \<le> 100) \<and>
       0 \<le> overallProgress (steps r) \<and> overallProgress (steps r) \<le> 100)"
proof -
  let ?r = "commit (initialRender fn) (take n (processingEffect e (initialRender fn)))"
  have "in_range (steps (initialRender fn))"
    by (simp add: initialRender_def in_range_initialSteps)
  then have ir: "in_range (steps ?r)"
    by (rule commit_in_range) (rule list_all_take, rule valid_processingEffect)
  have "length (steps ?r) = 5"
    by (simp add: length_steps_commit initialRender_def initialSteps_def)
  then have ne: "steps ?r \<noteq> []" by auto
  have "\<forall>s \<in> set (steps ?r). 0 \<le> progress s \<and> progress s \<le> 100"
    using ir by (simp add: in_range_def list_all_iff)
  with overallProgress_range [OF ir ne] transcriptionProgress_range renderingProgress_range
  show ?thesis by (simp add: Let_def)
qed

theorem progress_within_0_100_witness:
  "transcriptionProgress 3 = 25 \<and> renderingProgress 7 = 29 \<and>
   (let r = commit r0 (take 9 (processingEffect env_degraded r0))
    in steps r ! 1 \<in> set (steps r) \<and>
       0 \<le> progress (steps r ! 1) \<and> progress (steps r ! 1) \<le> 100 \<and>
       0 \<le> overallProgress (steps r) \<and> overallProgress (steps r) \<le> 100)"
proof -
  have mem: "steps (commit r0 (take 9 (processingEffect env_degraded r0))) ! 1
      \<in> set (steps (commit r0 (take 9 (processingEffect env_degraded r0))))"
    by (simp add: length_steps_commit r0_def initialRender_def initialSteps_def)
  have t: "transcriptionProgress 3 = 25"
    by (simp add: transcriptionProgress_def)
  have r: "renderingProgress 7 = 29"
    by (simp add: renderingProgress_div)
  from progress_within_0_100 [of 3 7 "Some ''a.mp4''" 9 env_degraded] mem t r
  show ?thesis unfolding r0_def Let_def by blast
qed

section \<open>Exhausted poll budgets\<close>

lemma invocations_append: "invocations (xs @ ys) = invocations xs @ invocations ys"
  by (induction xs rule: invocations.induct) simp_all

lemma navigations_append: "navigations (xs @ ys) = navigations xs @ navigations ys"
  by (induction xs rule: navigations.induct) simp_all


lemma checkTranscriptStatus_exhaust:
  assumes "\<forall>k. a < k \<and> k \<le> maxAttempts \<longrightarrow> getTranscript_res e k = Throws" "a \<le> maxAttempts"
  shows "checkTranscriptStatus e c f a =
           concat (map transcriptRetry [a + 1 ..< maxAttempts + 1]) @ transcriptExhausted"
  using assms
proof (induction e c f a rule: checkTranscriptStatus.induct)
  case (1 e c f a)
  show ?case
  proof (cases "a \<ge> maxAttempts")
    case True
    then have "a = maxAttempts" using "1.prems"(2) by simp
    then show ?thesis
      by (subst checkTranscriptStatus.simps) (simp add: transcriptExhausted_def)
  next
    case False
    then have th: "getTranscript_res e (a + 1) = Throws" using "1.prems"(1) by simp
    have ih: "checkTranscriptStatus e c f (a + 1) =
        concat (map transcriptRetry [a + 1 + 1 ..< maxAttempts + 1]) @ transcriptExhausted"
      using "1.IH"(1) [OF False th] "1.prems" False by simp
    have up: "[a + 1 ..< maxAttempts + 1] = (a + 1) # [a + 1 + 1 ..< maxAttempts + 1]"
      using False by (simp add: upt_conv_Cons)
    have step: "checkTranscriptStatus e c f a =
        transcriptRetry (a + 1) @ checkTranscriptStatus e c f (a + 1)"
      by (subst checkTranscriptStatus.simps)
         (simp only: False th if_False response.case transcriptRetry_def)
    show ?thesis unfolding step ih up by simp
  qed
qed

lemma invocations_retries:
  "invocations (concat (map transcriptRetry ks)) = replicate (length ks) (GetTranscript, False)"
  by (induction ks) (simp_all add: invocations_append transcriptRetry_def)

lemma navigations_retries: "navigations (concat (map transcriptRetry ks)) = []"
  by (induction ks) (simp_all add: navigations_append transcriptRetry_def)


lemma map_status_progress_update:
  "map status (apply_update ss (Progress i v)) = map status ss"
proof (cases "i < length ss")
  case True
  then show ?thesis by (simp add: map_update list_update_same_conv)
next
  case False
  then show ?thesis by (simp add: list_update_beyond)
qed

lemma map_status_retries:
  "map status (steps (queued r (concat (map transcriptRetry ks)))) = map status (steps r)"
proof (induction ks arbitrary: r)
  case Nil
  then show ?case by (simp add: queued_Nil)
next
  case (Cons k ks)
  have "map status (steps (queued r (transcriptRetry k))) = map status (steps r)"
    using map_status_progress_update [of "steps r" 1 "transcriptionProgress k"]
    by (simp add: transcriptRetry_def queued_Cons queued_Nil)
  then show ?case using Cons by (simp add: queued_append)
qed

lemma map_status_exhausted:
  assumes "length (steps r) = 5"
  shows "map status (steps (queued r transcriptExhausted)) =
           [status (steps r ! 0), Completed, Completed, Completed, Processing]"
proof -
  obtain s0 s1 s2 s3 s4 where ss: "steps r = [s0, s1, s2, s3, s4]"
    using assms by (auto simp: length_Suc_conv eval_nat_numeral)
  show ?thesis
    by (simp add: transcriptExhausted_def queued_Cons queued_Nil ss)
qed

lemma processingEffect_fresh:
  "fn \<noteq> [] \<Longrightarrow> generateCaptions_res e \<Longrightarrow>
   processingEffect e (initialRender (Some fn)) =
     [SetIsProcessingStarted True, Invoke GenerateCaptions True]
     @ checkTranscriptStatus e (initialRender (Some fn)) fn 0"
  by (simp add: processingEffect_def initiateProcessing_def initialRender_def)

lemma checkTranscriptStatus_cases:
  assumes "\<not> a \<ge> maxAttempts"
  shows "getTranscript_res e (a + 1) = Throws \<Longrightarrow>
          checkTranscriptStatus e c f a =
            transcriptRetry (a + 1) @ checkTranscriptStatus e c f (a + 1)"
    and "getTranscript_res e (a + 1) = Returns t \<Longrightarrow> isBrollProcessing c \<Longrightarrow>
          checkTranscriptStatus e c f a = transcriptFetched"
    and "getTranscript_res e (a + 1) = Returns t \<Longrightarrow> \<not> isBrollProcessing c \<Longrightarrow>
          transcriptText t = Inl err \<Longrightarrow>
          checkTranscriptStatus e c f a =
            (transcriptFetched @
             [SetIsBrollProcessing True,
              SetSteps [Progress 1 (transcriptionProgress (a + 1))],
              SetTimeout CheckTranscriptStatus 3000]) @ checkTranscriptStatus e c f (a + 1)"
    and "getTranscript_res e (a + 1) = Returns t \<Longrightarrow> \<not> isBrollProcessing c \<Longrightarrow>
          transcriptText t = Inr tx \<Longrightarrow> getBRoll_res e (brollPrompt tx) \<Longrightarrow>
          checkTranscriptStatus e c f a =
            (transcriptFetched @
             [SetIsBrollProcessing True,
              Invoke (GetBRoll (brollPrompt tx)) True,
              SetSteps [Status 3 Completed, Progress 3 100, Status 4 Processing, Progress 4 10],
              SetCurrentStepIndex 4]) @ startFinalVideoGeneration e f"
    and "getTranscript_res e (a + 1) = Returns t \<Longrightarrow> \<not> isBrollProcessing c \<Longrightarrow>
          transcriptText t = Inr tx \<Longrightarrow> \<not> getBRoll_res e (brollPrompt tx) \<Longrightarrow>
          checkTranscriptStatus e c f a =
            (transcriptFetched @
             [SetIsBrollProcessing True,
              Invoke (GetBRoll (brollPrompt tx)) False,
              SetSteps [Status 3 Error, Progress 3 100, Status 4 Processing, Progress 4 10],
              SetCurrentStepIndex 4]) @ startFinalVideoGeneration e f"
  using assms
  by (subst checkTranscriptStatus.simps,
      simp add: transcriptRetry_def transcriptFetched_def del: One_nat_def)+

lemma transcript_exhaustion_trace:
  assumes "fn \<noteq> []" and "generateCaptions_res e"
    and "\<forall>k. 1 \<le> k \<and> k \<le> maxAttempts \<longrightarrow> getTranscript_res e k = Throws"
  shows "processingEffect e (initialRender (Some fn)) =
     [SetIsProcessingStarted True, Invoke GenerateCaptions True]
     @ concat (map transcriptRetry [1 ..< maxAttempts + 1]) @ transcriptExhausted"
proof -
  have "checkTranscriptStatus e (initialRender (Some fn)) fn 0 =
      concat (map transcriptRetry [0 + 1 ..< maxAttempts + 1]) @ transcriptExhausted"
    by (rule checkTranscriptStatus_exhaust) (use assms(3) in auto)
  then show ?thesis using processingEffect_fresh [OF assms(1,2)] by simp
qed

lemma transcript_exhaustion_facts:
  assumes "fn \<noteq> []" and "generateCaptions_res e"
    and "\<forall>k. 1 \<le> k \<and> k \<le> maxAttempts \<longrightarrow> getTranscript_res e k = Throws"
  shows "invocations (processingEffect e (initialRender (Some fn))) =
           (GenerateCaptions, True) # replicate 20 (GetTranscript, False)"
    and "Toast ''Transcript Processing Warning'' \<in> set (processingEffect e (initialRender (Some fn)))"
    and "map status (steps (commit (initialRender (Some fn))
           (processingEffect e (initialRender (Some fn))))) =
           [Completed, Completed, Completed, Completed, Processing]"
proof -
  let ?r = "initialRender (Some fn)"
  let ?rs = "concat (map transcriptRetry [1 ..< maxAttempts + 1])"
  note tr = transcript_exhaustion_trace [OF assms]
  show "invocations (processingEffect e ?r) =
      (GenerateCaptions, True) # replicate 20 (GetTranscript, False)"
    unfolding tr by (simp add: invocations_append invocations_retries transcriptExhausted_def
        maxAttempts_def)
  show "Toast ''Transcript Processing Warning'' \<in> set (processingEffect e ?r)"
    unfolding tr by (simp add: transcriptExhausted_def)
  let ?r1 = "queued ?r [SetIsProcessingStarted True, Invoke GenerateCaptions True]"
  have s1: "steps ?r1 = initialSteps"
    by (simp add: queued_Cons queued_Nil initialRender_def)
  have len: "length (steps (queued ?r1 ?rs)) = 5"
    by (simp add: length_steps_queued s1 initialSteps_def)
  have "status (steps (queued ?r1 ?rs) ! 0) = map status (steps (queued ?r1 ?rs)) ! 0"
    using len by simp
  also have "\<dots> = Completed"
    by (simp add: map_status_retries s1 initialSteps_def)
  finally have st0: "status (steps (queued ?r1 ?rs) ! 0) = Completed" .
  have "navigations (processingEffect e ?r) = []"
    unfolding tr by (simp add: navigations_append navigations_retries transcriptExhausted_def)
  then have cq: "commit ?r (processingEffect e ?r) = queued ?r (processingEffect e ?r)"
    by (rule commit_no_navigation)
  show "map status (steps (commit ?r (processingEffect e ?r))) =
      [Completed, Completed, Completed, Completed, Processing]"
    unfolding cq unfolding tr queued_append using map_status_exhausted [OF len] st0 by simp
qed

text \<open>
  C1, as amended. When none of the twenty transcript polls succeeds, the page does not
  fail the job: it calls \<^verbatim>\<open>generateCaptions\<close> once and \<^verbatim>\<open>getTranscript\<close> twenty times and
  nothing else (no B-roll call, no final-video call), raises the toast
  "Transcript Processing Warning", marks the upload, transcription, caption and B-roll
  steps completed, and marks no step as an error.
\<close>

theorem transcript_exhaustion_not_failed:
  assumes "fn \<noteq> []" and "generateCaptions_res e"
    and "\<forall>k. 1 \<le> k \<and> k \<le> maxAttempts \<longrightarrow> getTranscript_res e k = Throws"
  shows "let T = processingEffect e (initialRender (Some fn));
             r = commit (initialRender (Some fn)) T
         in invocations T = (GenerateCaptions, True) # replicate 20 (GetTranscript, False) \<and>
            Toast ''Transcript Processing Warning'' \<in> set T \<and>
            take 4 (map status (steps r)) = [Completed, Completed, Completed, Completed] \<and>
            Error \<notin> set (map status (steps r))"
  using transcript_exhaustion_facts [OF assms] by (simp add: Let_def del: set_map)

lemma env_stalled_polls: "\<forall>k. 1 \<le> k \<and> k \<le> maxAttempts \<longrightarrow> getTranscript_res env_stalled k = Throws"
  by (simp add: env_stalled_def)

theorem transcript_exhaustion_not_failed_witness:
  "''a.mp4'' \<noteq> [] \<and> generateCaptions_res env_stalled \<and>
   getTranscript_res env_stalled 1 = Throws \<and> getTranscript_res env_stalled 20 = Throws \<and>
   (let T = processingEffect env_stalled (initialRender (Some ''a.mp4''));
        r = commit (initialRender (Some ''a.mp4'')) T
    in invocations T = (GenerateCaptions, True) # replicate 20 (GetTranscript, False) \<and>
       Toast ''Transcript Processing Warning'' \<in> set T \<and>
       take 4 (map status (steps r)) = [Completed, Completed, Completed, Completed] \<and>
       Error \<notin> set (map status (steps r)))"
proof -
  have h1: "''a.mp4'' \<noteq> []" by simp
  have h2: "generateCaptions_res env_stalled" by (simp add: env_stalled_def)
  have h3: "getTranscript_res env_stalled 1 = Throws" "getTranscript_res env_stalled 20 = Throws"
    by (simp_all add: env_stalled_def)
  from transcript_exhaustion_not_failed [OF h1 h2 env_stalled_polls] h1 h2 h3
  show ?thesis by blast
qed

text \<open>
  The claim as stated (the job reaches Failed with a recorded error) is false on the run
  against a backend whose transcript never becomes available: no step ends in
  \<^const>\<open>Error\<close>, and the transcription step ends \<^const>\<open>Completed\<close>.
\<close>

theorem transcript_exhaustion_counterexample:
  "invocations (processingEffect env_stalled r0) =
     (GenerateCaptions, True) # replicate 20 (GetTranscript, False) \<and>
   map status (steps (commit r0 (processingEffect env_stalled r0))) =
     [Completed, Completed, Completed, Completed, Processing] \<and>
   Error \<notin> set (map status (steps (commit r0 (processingEffect env_stalled r0))))"
proof -
  have h1: "''a.mp4'' \<noteq> []" by simp
  have h2: "generateCaptions_res env_stalled" by (simp add: env_stalled_def)
  show ?thesis
    using transcript_exhaustion_facts [OF h1 h2 env_stalled_polls]
    by (simp add: r0_def del: set_map)
qed

lemma checkFinalVideoStatus_exhaust:
  assumes "\<forall>k. a < k \<and> k \<le> maxFinalVideoAttempts \<longrightarrow> \<not> ready (getFinalVideoUrl_res e k)"
    and "a \<le> maxFinalVideoAttempts"
  shows "\<exists>pre. checkFinalVideoStatus e f a = pre @ renderingExhausted f \<and>
           map fst (invocations pre) = replicate (maxFinalVideoAttempts - a) GetFinalVideoUrl \<and>
           navigations pre = []"
  using assms
proof (induction e f a rule: checkFinalVideoStatus.induct)
  case (1 e f a)
  show ?case
  proof (cases "a \<ge> maxFinalVideoAttempts")
    case True
    then have "checkFinalVideoStatus e f a = [] @ renderingExhausted f"
      by (subst checkFinalVideoStatus.simps) (simp add: renderingExhausted_def)
    then show ?thesis using True by fastforce
  next
    case False
    then have nr: "\<not> ready (getFinalVideoUrl_res e (a + 1))" using "1.prems"(1) by simp
    have pr: "\<forall>k. a + 1 < k \<and> k \<le> maxFinalVideoAttempts \<longrightarrow> \<not> ready (getFinalVideoUrl_res e k)"
      using "1.prems"(1) by simp
    have le: "a + 1 \<le> maxFinalVideoAttempts" using False by simp
    have cnt: "maxFinalVideoAttempts - a = Suc (maxFinalVideoAttempts - (a + 1))"
      using False by simp
    show ?thesis
    proof (cases "getFinalVideoUrl_res e (a + 1)")
      case Throws
      from "1.IH"(1) [OF False Throws pr le]
      obtain pre where pre: "checkFinalVideoStatus e f (a + 1) = pre @ renderingExhausted f"
        "map fst (invocations pre) = replicate (maxFinalVideoAttempts - (a + 1)) GetFinalVideoUrl"
        "navigations pre = []" by blast
      let ?hd = "[Invoke GetFinalVideoUrl False,
              SetSteps [Progress 4 (renderingProgress (a + 1))],
              SetTimeout CheckFinalVideoStatus 3000]"
      have "checkFinalVideoStatus e f a = (?hd @ pre) @ renderingExhausted f"
        by (subst checkFinalVideoStatus.simps)
           (simp only: False Throws if_False response.case pre(1) append_assoc)
      moreover have "map fst (invocations (?hd @ pre)) =
          replicate (maxFinalVideoAttempts - a) GetFinalVideoUrl"
        unfolding cnt by (simp add: pre(2))
      moreover have "navigations (?hd @ pre) = []" by (simp add: pre(3))
      ultimately show ?thesis by blast
    next
      case (Returns d)
      then have d: "d = FVNull" using nr by (cases d) simp_all
      from "1.IH"(2) [OF False Returns d pr le]
      obtain pre where pre: "checkFinalVideoStatus e f (a + 1) = pre @ renderingExhausted f"
        "map fst (invocations pre) = replicate (maxFinalVideoAttempts - (a + 1)) GetFinalVideoUrl"
        "navigations pre = []" by blast
      let ?hd = "[Invoke GetFinalVideoUrl True,
              SetSteps [Status 4 Completed, Progress 4 100],
              SetSteps [Progress 4 (renderingProgress (a + 1))],
              SetTimeout CheckFinalVideoStatus 3000]"
      have "checkFinalVideoStatus e f a = (?hd @ pre) @ renderingExhausted f"
        by (subst checkFinalVideoStatus.simps)
           (simp only: False Returns d if_False response.case final_video_data.case pre(1)
              append_assoc)
      moreover have "map fst (invocations (?hd @ pre)) =
          replicate (maxFinalVideoAttempts - a) GetFinalVideoUrl"
        unfolding cnt by (simp add: pre(2))
      moreover have "navigations (?hd @ pre) = []" by (simp add: pre(3))
      ultimately show ?thesis by blast
    qed
  qed
qed

lemma status_updates_append: "status_updates (xs @ ys) = status_updates xs @ status_updates ys"
  by (induction xs rule: status_updates.induct) simp_all

lemma no_error_checkFinalVideoStatus:
  "list_all (\<lambda>x. snd x \<noteq> Error) (status_updates (checkFinalVideoStatus e f a))"
proof (induction e f a rule: checkFinalVideoStatus.induct)
  case (1 e f a)
  show ?case
    using 1
    by (subst checkFinalVideoStatus.simps)
       (auto split: response.splits final_video_data.splits simp: status_updates_append)
qed

lemma getShareableId_a: "getShareableId ''a.mp4'' = ''a''"
  by code_simp

lemma rendering_exhaustion_facts:
  assumes "\<forall>k. 1 \<le> k \<and> k \<le> maxFinalVideoAttempts \<longrightarrow> \<not> ready (getFinalVideoUrl_res e k)"
  shows "map fst (invocations (checkFinalVideoStatus e fn 0)) = replicate 30 GetFinalVideoUrl"
    and "\<exists>pre. checkFinalVideoStatus e fn 0 =
           pre @ [Toast ''Rendering Warning'', SetSteps [Status 4 Completed, Progress 4 100],
                  Navigate (''/preview/'' @ getShareableId fn)]"
    and "navigations (checkFinalVideoStatus e fn 0) = [''/preview/'' @ getShareableId fn]"
    and "last (status_updates (checkFinalVideoStatus e fn 0)) = (4, Completed)"
proof -
  have "\<forall>k. 0 < k \<and> k \<le> maxFinalVideoAttempts \<longrightarrow> \<not> ready (getFinalVideoUrl_res e k)"
    using assms(1) by (simp add: Suc_le_eq)
  from checkFinalVideoStatus_exhaust [OF this, of fn]
  obtain pre where pre: "checkFinalVideoStatus e fn 0 = pre @ renderingExhausted fn"
    "map fst (invocations pre) = replicate (maxFinalVideoAttempts - 0) GetFinalVideoUrl"
    "navigations pre = []" by blast
  show "map fst (invocations (checkFinalVideoStatus e fn 0)) = replicate 30 GetFinalVideoUrl"
    unfolding pre(1) invocations_append
    by (simp add: pre(2) maxFinalVideoAttempts_def renderingExhausted_def)
  show "\<exists>pre. checkFinalVideoStatus e fn 0 =
           pre @ [Toast ''Rendering Warning'', SetSteps [Status 4 Completed, Progress 4 100],
                  Navigate (''/preview/'' @ getShareableId fn)]"
    using pre(1) by (auto simp: renderingExhausted_def previewPath_def)
  show "navigations (checkFinalVideoStatus e fn 0) = [''/preview/'' @ getShareableId fn]"
    unfolding pre(1) navigations_append
    by (simp add: pre(3) renderingExhausted_def previewPath_def)
  show "last (status_updates (checkFinalVideoStatus e fn 0)) = (4, Completed)"
    unfolding pre(1) status_updates_append by (simp add: renderingExhausted_def)
qed

text \<open>
  C3, as amended. When none of the thirty final-video polls yields the final video, the
  page does not fail the job: after the thirty calls of \<^verbatim>\<open>getFinalVideoUrl\<close> it raises the
  toast "Rendering Warning", issues the update that marks the rendering step completed at
  100 and navigates at once to \<^verbatim>\<open>/preview/\<close> followed by the identifier derived from the file
  name. No update of the polling marks a step as an error; the last status it assigns is
  completed, to the rendering step.
\<close>

theorem rendering_exhaustion_reported_completed:
  assumes "\<forall>k. 1 \<le> k \<and> k \<le> maxFinalVideoAttempts \<longrightarrow> \<not> ready (getFinalVideoUrl_res e k)"
  shows "let T = checkFinalVideoStatus e fn 0
         in map fst (invocations T) = replicate 30 GetFinalVideoUrl \<and>
            (\<exists>pre. T = pre @
               [Toast ''Rendering Warning'', SetSteps [Status 4 Completed, Progress 4 100],
                Navigate (''/preview/'' @ getShareableId fn)]) \<and>
            navigations T = [''/preview/'' @ getShareableId fn] \<and>
            (\<forall>x \<in> set (status_updates T). snd x \<noteq> Error) \<and>
            last (status_updates T) = (4, Completed)"
  using rendering_exhaustion_facts [OF assms, of fn] no_error_checkFinalVideoStatus [of e fn 0]
  by (simp add: Let_def list_all_iff)

lemma env_render_timeout_polls:
  "\<forall>k. 1 \<le> k \<and> k \<le> maxFinalVideoAttempts \<longrightarrow> \<not> ready (getFinalVideoUrl_res env_render_timeout k)"
  by (simp add: env_render_timeout_def)

theorem rendering_exhaustion_reported_completed_witness:
  "\<not> ready (getFinalVideoUrl_res env_render_timeout 1) \<and>
   \<not> ready (getFinalVideoUrl_res env_render_timeout 30) \<and>
   map fst (invocations (checkFinalVideoStatus env_render_timeout ''a.mp4'' 0)) =
     replicate 30 GetFinalVideoUrl \<and>
   (\<exists>pre. checkFinalVideoStatus env_render_timeout ''a.mp4'' 0 = pre @
      [Toast ''Rendering Warning'', SetSteps [Status 4 Completed, Progress 4 100],
       Navigate ''/preview/a'']) \<and>
   navigations (checkFinalVideoStatus env_render_timeout ''a.mp4'' 0) = [''/preview/a''] \<and>
   last (status_updates (checkFinalVideoStatus env_render_timeout ''a.mp4'' 0)) = (4, Completed)"
proof -
  have h1: "\<not> ready (getFinalVideoUrl_res env_render_timeout 1)"
    "\<not> ready (getFinalVideoUrl_res env_render_timeout 30)"
    by (simp_all add: env_render_timeout_def)
  have p: "''/preview/'' @ getShareableId ''a.mp4'' = ''/preview/a''"
    by (simp add: getShareableId_a)
  from rendering_exhaustion_reported_completed [OF env_render_timeout_polls, of "''a.mp4''"] h1
  show ?thesis unfolding Let_def p by blast
qed

lemma checkFinalVideoStatus_all_throw:
  assumes "\<forall>k. a < k \<and> k \<le> maxFinalVideoAttempts \<longrightarrow> getFinalVideoUrl_res e k = Throws"
    and "a \<le> maxFinalVideoAttempts"
  shows "checkFinalVideoStatus e f a =
           concat (map renderingRetry [a + 1 ..< maxFinalVideoAttempts + 1]) @ renderingExhausted f"
  using assms
proof (induction e f a rule: checkFinalVideoStatus.induct)
  case (1 e f a)
  show ?case
  proof (cases "a \<ge> maxFinalVideoAttempts")
    case True
    then have "a = maxFinalVideoAttempts" using "1.prems"(2) by simp
    then show ?thesis
      by (subst checkFinalVideoStatus.simps) (simp add: renderingExhausted_def)
  next
    case False
    then have th: "getFinalVideoUrl_res e (a + 1) = Throws" using "1.prems"(1) by simp
    have ih: "checkFinalVideoStatus e f (a + 1) =
        concat (map renderingRetry [a + 1 + 1 ..< maxFinalVideoAttempts + 1]) @ renderingExhausted f"
      using "1.IH"(1) [OF False th] "1.prems" False by simp
    have up: "[a + 1 ..< maxFinalVideoAttempts + 1] =
        (a + 1) # [a + 1 + 1 ..< maxFinalVideoAttempts + 1]"
      using False by (simp add: upt_conv_Cons)
    have step: "checkFinalVideoStatus e f a =
        renderingRetry (a + 1) @ checkFinalVideoStatus e f (a + 1)"
      by (subst checkFinalVideoStatus.simps)
         (simp only: False th if_False response.case renderingRetry_def)
    show ?thesis unfolding step ih up by simp
  qed
qed

lemma status_updates_rendering_retries:
  "status_updates (concat (map renderingRetry ks)) = []"
  by (induction ks) (simp_all add: status_updates_append renderingRetry_def)

lemma run_env_render_timeout:
  "processingEffect env_render_timeout r0 =
     [SetIsProcessingStarted True, Invoke GenerateCaptions True] @
     transcriptFetched @
     [SetIsBrollProcessing True,
      Invoke (GetBRoll ''High quality visual scene representing: Hi there'') True,
      SetSteps [Status 3 Completed, Progress 3 100, Status 4 Processing, Progress 4 10],
      SetCurrentStepIndex 4,
      Invoke GenerateFinalVideo True] @
     checkFinalVideoStatus env_render_timeout ''a.mp4'' 0"
proof -
  have f: "''a.mp4'' \<noteq> []" by simp
  have c: "generateCaptions_res env_render_timeout" by (simp add: env_render_timeout_def)
  have m: "\<not> 0 \<ge> maxAttempts" by (simp add: maxAttempts_def)
  have t: "getTranscript_res env_render_timeout (0 + 1) = Returns (TString ''Hi there. You'')"
    by (simp add: env_render_timeout_def)
  have b: "\<not> isBrollProcessing (initialRender (Some ''a.mp4''))" by (simp add: initialRender_def)
  have x: "transcriptText (TString ''Hi there. You'') = Inr ''Hi there. You''" by simp
  have p: "brollPrompt ''Hi there. You'' = ''High quality visual scene representing: Hi there''"
    by (simp add: brollPrompt_def)
  have g: "getBRoll_res env_render_timeout (brollPrompt ''Hi there. You'')"
    by (simp add: env_render_timeout_def)
  have s: "startFinalVideoGeneration env_render_timeout ''a.mp4'' =
      Invoke GenerateFinalVideo True # checkFinalVideoStatus env_render_timeout ''a.mp4'' 0"
    by (simp add: startFinalVideoGeneration_def env_render_timeout_def)
  show ?thesis
    unfolding r0_def processingEffect_fresh [OF f c]
      checkTranscriptStatus_cases(4) [OF m t b x g] s p
    by simp
qed

text \<open>
  The claim as stated (the job ends Failed rather than reported as completed) is false on
  the run against a backend whose final video never becomes available: all thirty polls
  throw, no step is ever assigned \<^const>\<open>Error\<close>, the last assignment marks the rendering
  step \<^const>\<open>Completed\<close>, and the run ends with the warning toast and the navigation to
  the preview.
\<close>

theorem rendering_exhaustion_counterexample:
  "invocations (processingEffect env_render_timeout r0) =
     [(GenerateCaptions, True), (GetTranscript, True),
      (GetBRoll ''High quality visual scene representing: Hi there'', True),
      (GenerateFinalVideo, True)] @ replicate 30 (GetFinalVideoUrl, False) \<and>
   status_updates (processingEffect env_render_timeout r0) =
     [(1, Completed), (2, Completed), (3, Processing), (3, Completed), (4, Processing),
      (4, Completed)] \<and>
   Toast ''Rendering Warning'' \<in> set (processingEffect env_render_timeout r0) \<and>
   last (processingEffect env_render_timeout r0) = Navigate ''/preview/a''"
proof -
  let ?tail = "checkFinalVideoStatus env_render_timeout ''a.mp4'' 0"
  have i: "invocations (processingEffect env_render_timeout r0) =
     [(GenerateCaptions, True), (GetTranscript, True),
      (GetBRoll ''High quality visual scene representing: Hi there'', True),
      (GenerateFinalVideo, True)] @ replicate 30 (GetFinalVideoUrl, False)"
    by code_simp
  have "?tail = concat (map renderingRetry [0 + 1 ..< maxFinalVideoAttempts + 1]) @
      renderingExhausted ''a.mp4''"
    by (rule checkFinalVideoStatus_all_throw) (simp_all add: env_render_timeout_def)
  then have su: "status_updates ?tail = [(4, Completed)]"
    by (simp add: status_updates_append status_updates_rendering_retries renderingExhausted_def)
  from rendering_exhaustion_facts(2) [OF env_render_timeout_polls, of "''a.mp4''"]
  obtain pre where pre: "?tail = pre @
      [Toast ''Rendering Warning'', SetSteps [Status 4 Completed, Progress 4 100],
       Navigate (''/preview/'' @ getShareableId ''a.mp4'')]" by blast
  have s: "status_updates (processingEffect env_render_timeout r0) =
     [(1, Completed), (2, Completed), (3, Processing), (3, Completed), (4, Processing),
      (4, Completed)]"
    unfolding run_env_render_timeout status_updates_append su
    by (simp add: transcriptFetched_def)
  have t: "Toast ''Rendering Warning'' \<in> set (processingEffect env_render_timeout r0)"
    unfolding run_env_render_timeout pre by simp
  have l: "last (processingEffect env_render_timeout r0) = Navigate ''/preview/a''"
    unfolding run_env_render_timeout pre by (simp add: getShareableId_a)
  from i s t l show ?thesis by blast
qed

section \<open>Delays between polls\<close>









section \<open>Splitting, the B-roll prompt\<close>

lemma js_split_not_Nil: "js_split c s \<noteq> []"
  by (induction s) simp_all

lemma hd_js_split: "hd (js_split c s) = takeWhile (\<lambda>x. x \<noteq> c) s"
  by (induction s) simp_all

lemma js_split_no_sep: "c \<notin> set s \<Longrightarrow> js_split c s = [s]"
  by (induction s) auto

lemma last_js_split_append: "last (js_split c (xs @ c # ys)) = last (js_split c ys)"
proof (induction xs)
  case Nil
  then show ?case by (simp add: js_split_not_Nil)
next
  case (Cons x xs)
  have ne: "js_split c (xs @ c # ys) \<noteq> []" by (rule js_split_not_Nil)
  have two: "tl (js_split c (xs @ c # ys)) \<noteq> []"
  proof (induction xs)
    case Nil
    then show ?case by (simp add: js_split_not_Nil)
  next
    case (Cons a xs)
    then show ?case by (simp add: js_split_not_Nil)
  qed
  show ?case
  proof (cases "x = c")
    case True
    then show ?thesis using Cons ne by simp
  next
    case False
    then have "last (js_split c ((x # xs) @ c # ys)) = last (tl (js_split c (xs @ c # ys)))"
      using two by simp
    also have "\<dots> = last (js_split c (xs @ c # ys))"
      using two ne by (metis last_tl list.sel(2))
    finally show ?thesis using Cons by simp
  qed
qed

lemma js_split_parts_no_sep: "w \<in> set (js_split c s) \<Longrightarrow> c \<notin> set w"
proof (induction s arbitrary: w)
  case Nil
  then show ?case by simp
next
  case (Cons x s)
  have ne: "js_split c s \<noteq> []" by (rule js_split_not_Nil)
  show ?case
  proof (cases "x = c")
    case True
    then show ?thesis using Cons by auto
  next
    case False
    then have "w = x # hd (js_split c s) \<or> w \<in> set (tl (js_split c s))"
      using Cons.prems by simp
    then show ?thesis
    proof
      assume "w = x # hd (js_split c s)"
      moreover have "c \<notin> set (hd (js_split c s))"
        using Cons.IH [of "hd (js_split c s)"] ne by simp
      ultimately show ?thesis using False by simp
    next
      assume "w \<in> set (tl (js_split c s))"
      then have "w \<in> set (js_split c s)" by (metis list.set_sel(2) ne)
      then show ?thesis by (rule Cons.IH)
    qed
  qed
qed

lemma fileExtension_no_dot: "CHR ''.'' \<notin> set (fileExtension name)"
  unfolding fileExtension_def
  by (rule js_split_parts_no_sep [of _ "CHR ''.''" name]) (simp add: js_split_not_Nil)

lemma fileExtension_subset: "set (fileExtension name) \<subseteq> set name"
proof -
  have "\<And>w. w \<in> set (js_split c s) \<Longrightarrow> set w \<subseteq> set s" for c s
  proof (induction s)
    case Nil
    then show ?case by simp
  next
    case (Cons x s)
    have ne: "js_split c s \<noteq> []" by (rule js_split_not_Nil)
    have hd: "set (hd (js_split c s)) \<subseteq> set s" using Cons.IH ne by simp
    have tl: "\<And>v. v \<in> set (tl (js_split c s)) \<Longrightarrow> set v \<subseteq> set s"
      using Cons.IH by (metis list.set_sel(2) ne)
    show ?case using Cons.prems hd tl Cons.IH by (auto split: if_splits)
  qed
  then show ?thesis unfolding fileExtension_def
    by (metis js_split_not_Nil last_in_set)
qed

lemma brollPrompt_takeWhile:
  "brollPrompt text =
     ''High quality visual scene representing: '' @ takeWhile (\<lambda>c. c \<noteq> CHR ''.'') text"
  by (simp add: brollPrompt_def hd_js_split)

lemma length_brollPrompt_replicate:
  "length (brollPrompt (replicate n CHR ''a'')) = 40 + n"
proof -
  have "takeWhile (\<lambda>c. c \<noteq> CHR ''.'') (replicate n CHR ''a'') = replicate n CHR ''a''"
    by (rule takeWhile_eq_all_conv [THEN iffD2]) simp
  then show ?thesis by (simp add: brollPrompt_takeWhile)
qed

text \<open>
  C5, as amended. The B-roll prompt is a function of the transcript alone: the fixed
  template followed by the transcript text up to, and without, its first dot. The text is
  cut to 100 characters only when it is taken from the JSON rendering of a transcript that
  has no usable \<^verbatim>\<open>text\<close>; for a string transcript and for a non-empty \<^verbatim>\<open>text\<close> the excerpt
  is the whole first sentence, however long: a text of \<open>n\<close> letters without a dot gives a
  prompt of \<open>40 + n\<close> characters.
\<close>

theorem broll_prompt_first_sentence:
  "brollPrompt txt =
     ''High quality visual scene representing: '' @ takeWhile (\<lambda>c. c \<noteq> CHR ''.'') txt \<and>
   transcriptText (TString s) = Inr s \<and>
   (s \<noteq> [] \<longrightarrow> transcriptText (TObject (Text s) json) = Inr s) \<and>
   transcriptText (TObject (Text []) json) = Inr (take 100 json) \<and>
   transcriptText (TObject Absent json) = Inr (take 100 json) \<and>
   length (takeWhile (\<lambda>c. c \<noteq> CHR ''.'') (take 100 json)) \<le> 100 \<and>
   length (brollPrompt (replicate n CHR ''a'')) = 40 + n"
proof -
  have "length (takeWhile (\<lambda>c. c \<noteq> CHR ''.'') (take 100 json)) \<le> length (take 100 json)"
    by (rule length_takeWhile_le)
  then have "length (takeWhile (\<lambda>c. c \<noteq> CHR ''.'') (take 100 json)) \<le> 100" by simp
  then show ?thesis
    using brollPrompt_takeWhile [of "txt"] length_brollPrompt_replicate [of n] by simp
qed

theorem broll_prompt_first_sentence_witness:
  "''Hi there'' \<noteq> [] \<and>
   brollPrompt ''Hi there. You'' = ''High quality visual scene representing: Hi there'' \<and>
   transcriptText (TObject (Text ''Hi there'') ''{}'') = Inr ''Hi there'' \<and>
   length (brollPrompt (replicate 3 CHR ''a'')) = 43"
proof -
  have h: "''Hi there'' \<noteq> []" by simp
  have t: "takeWhile (\<lambda>c. c \<noteq> CHR ''.'') ''Hi there. You'' = ''Hi there''" by simp
  from broll_prompt_first_sentence [of "''Hi there. You''" "''Hi there''" "''{}''" 3] h t
  show ?thesis by simp
qed

text \<open>
  The claim as stated (the excerpt is bounded by a number of characters) is false for a
  string transcript of 101 letters without a dot, and no bound holds for every transcript.
\<close>

theorem broll_prompt_counterexample:
  "transcriptText (TString (replicate 101 CHR ''a'')) = Inr (replicate 101 CHR ''a'') \<and>
   length (brollPrompt (replicate 101 CHR ''a'')) = 141 \<and>
   \<not> (\<exists>N. \<forall>txt. length (brollPrompt txt) \<le> N)"
proof -
  have "\<not> (\<exists>N. \<forall>txt. length (brollPrompt txt) \<le> N)"
  proof
    assume "\<exists>N. \<forall>txt. length (brollPrompt txt) \<le> N"
    then obtain N where "\<forall>txt. length (brollPrompt txt) \<le> N" by blast
    then have "length (brollPrompt (replicate (Suc N) CHR ''a'')) \<le> N" by blast
    with length_brollPrompt_replicate [of "Suc N"] show False by linarith
  qed
  then show ?thesis using length_brollPrompt_replicate [of 101] by simp
qed

section \<open>Upload names and shareable identifiers\<close>

lemma removeExtension_no_dot: "CHR ''.'' \<notin> set s \<Longrightarrow> removeExtension s = s"
  by (induction s) auto

lemma removeExtension_last_dot:
  assumes "CHR ''.'' \<notin> set ext"
  shows "removeExtension (p @ CHR ''.'' # ext) =
           (if ext \<noteq> [] \<and> CHR ''/'' \<notin> set ext then p else p @ CHR ''.'' # ext)"
proof (induction p)
  case Nil
  have "list_all (\<lambda>x. x \<noteq> CHR ''/'' \<and> x \<noteq> CHR ''.'') ext \<longleftrightarrow> CHR ''/'' \<notin> set ext"
    using assms by (auto simp: list_all_iff)
  then show ?case using assms by (simp add: removeExtension_no_dot)
next
  case (Cons x p)
  have "\<not> list_all (\<lambda>x. x \<noteq> CHR ''/'' \<and> x \<noteq> CHR ''.'') (p @ CHR ''.'' # ext)"
    by (simp add: list_all_iff)
  then show ?case using Cons by simp
qed

lemma cancel_sep:
  "c \<notin> set u \<Longrightarrow> c \<notin> set v \<Longrightarrow> xs @ c # u = ys @ c # v \<Longrightarrow> xs = ys \<and> u = v"
proof (induction xs arbitrary: ys)
  case Nil
  then show ?case by (cases ys) auto
next
  case (Cons x xs)
  show ?case
  proof (cases ys)
    case Nil
    then show ?thesis using Cons.prems by auto
  next
    case (Cons y ys')
    then show ?thesis using Cons.IH [of ys'] Cons.prems by auto
  qed
qed

lemma of_char_hexDigit:
  "n < 16 \<Longrightarrow> (of_char (hexDigit n) :: nat) = (if n < 10 then 48 + n else 55 + n)"
  by (simp add: hexDigit_def)

lemma hexDigit_inj: "m < 16 \<Longrightarrow> n < 16 \<Longrightarrow> hexDigit m = hexDigit n \<Longrightarrow> m = n"
proof -
  assume m: "m < 16" and n: "n < 16" and eq: "hexDigit m = hexDigit n"
  have "(of_char (hexDigit m) :: nat) = of_char (hexDigit n)" using eq by simp
  then show "m = n" using m n by (simp add: of_char_hexDigit split: if_splits)
qed

lemma percent_reserved: "\<not> unreserved CHR ''%''"
  by (simp add: unreserved_def)

lemma encodeChar_inj_step:
  assumes "encodeChar c @ xs = encodeChar d @ ys"
  shows "c = d \<and> xs = ys"
proof -
  have lt: "(of_char c :: nat) < 256" "(of_char d :: nat) < 256"
    by simp_all
  consider (uu) "unreserved c" "unreserved d" | (un) "unreserved c" "\<not> unreserved d"
    | (nu) "\<not> unreserved c" "unreserved d" | (nn) "\<not> unreserved c" "\<not> unreserved d"
    by blast
  then show ?thesis
  proof cases
    case uu
    then show ?thesis using assms by (simp add: encodeChar_def)
  next
    case un
    then have "c = CHR ''%''" using assms by (simp add: encodeChar_def)
    then show ?thesis using un percent_reserved by simp
  next
    case nu
    then have "d = CHR ''%''" using assms by (simp add: encodeChar_def)
    then show ?thesis using nu percent_reserved by simp
  next
    case nn
    then have h: "hexDigit ((of_char c :: nat) div 16) = hexDigit ((of_char d :: nat) div 16)"
      "hexDigit ((of_char c :: nat) mod 16) = hexDigit ((of_char d :: nat) mod 16)"
      and r: "xs = ys"
      using assms by (simp_all add: encodeChar_def)
    have small: "(of_char c :: nat) div 16 < 16" "(of_char d :: nat) div 16 < 16"
      using lt by (simp_all add: div_less_iff_less_mult)
    have "(of_char c :: nat) div 16 = (of_char d :: nat) div 16"
      by (rule hexDigit_inj [OF small h(1)])
    moreover have "(of_char c :: nat) mod 16 = (of_char d :: nat) mod 16"
      using h(2) by (intro hexDigit_inj) simp_all
    ultimately have "(of_char c :: nat) = of_char d"
      by (metis div_mult_mod_eq)
    then have "c = d" by simp
    then show ?thesis using r by simp
  qed
qed

lemma encodeChar_not_Nil: "encodeChar c \<noteq> []"
  by (simp add: encodeChar_def)

lemma encodeURIComponent_inj:
  "encodeURIComponent s = encodeURIComponent t \<Longrightarrow> s = t"
proof (induction s arbitrary: t)
  case Nil
  then show ?case by (cases t) (simp_all add: encodeURIComponent_def encodeChar_not_Nil)
next
  case (Cons c s)
  show ?case
  proof (cases t)
    case Nil
    then show ?thesis using Cons.prems by (simp add: encodeURIComponent_def encodeChar_not_Nil)
  next
    case (Cons d t')
    then have "encodeChar c @ encodeURIComponent s = encodeChar d @ encodeURIComponent t'"
      using Cons.prems by (simp add: encodeURIComponent_def)
    then have "c = d \<and> encodeURIComponent s = encodeURIComponent t'"
      by (rule encodeChar_inj_step)
    then show ?thesis using Cons Cons.IH by simp
  qed
qed

lemma toDecimal_digits: "list_all digit (toDecimal n)"
proof (induction n rule: toDecimal.induct)
  case (1 n)
  show ?case
  proof (cases "n < 10")
    case True
    then show ?thesis by (subst toDecimal.simps) (simp add: digit_def)
  next
    case False
    have "n mod 10 < 10" by simp
    then have "digit (char_of (48 + n mod 10))" by (simp add: digit_def)
    then show ?thesis using False 1 by (subst toDecimal.simps) simp
  qed
qed

lemma toDecimal_not_Nil: "toDecimal n \<noteq> []"
  by (subst toDecimal.simps) simp

lemma char_of_digit_inj:
  "a < 10 \<Longrightarrow> b < 10 \<Longrightarrow> (char_of (48 + a) :: char) = char_of (48 + b) \<Longrightarrow> a = (b::nat)"
proof -
  assume a: "a < 10" and b: "b < 10" and eq: "(char_of (48 + a) :: char) = char_of (48 + b)"
  have "(of_char (char_of (48 + a) :: char) :: nat) = of_char (char_of (48 + b) :: char)"
    using eq by simp
  then show "a = b" using a b by simp
qed

lemma toDecimal_small: "n < 10 \<Longrightarrow> toDecimal n = [char_of (48 + n)]"
  by (subst toDecimal.simps) simp

lemma toDecimal_large:
  "\<not> n < 10 \<Longrightarrow> toDecimal n = toDecimal (n div 10) @ [char_of (48 + n mod 10)]"
  by (subst toDecimal.simps) simp

lemma toDecimal_inj: "toDecimal m = toDecimal n \<Longrightarrow> m = n"
proof (induction m arbitrary: n rule: toDecimal.induct)
  case (1 m)
  show ?case
  proof (cases "m < 10")
    case m: True
    show ?thesis
    proof (cases "n < 10")
      case True
      have "(char_of (48 + m) :: char) = char_of (48 + n)"
        using "1.prems" by (simp add: toDecimal_small [OF m] toDecimal_small [OF True])
      then show ?thesis by (rule char_of_digit_inj [OF m True])
    next
      case False
      have "toDecimal (n div 10) @ [char_of (48 + n mod 10)] = [char_of (48 + m)]"
        using "1.prems" by (simp add: toDecimal_small [OF m] toDecimal_large [OF False])
      then have "toDecimal (n div 10) = []" by simp
      then show ?thesis using toDecimal_not_Nil by blast
    qed
  next
    case m: False
    show ?thesis
    proof (cases "n < 10")
      case True
      have "toDecimal (m div 10) @ [char_of (48 + m mod 10)] = [char_of (48 + n)]"
        using "1.prems" by (simp add: toDecimal_small [OF True] toDecimal_large [OF m])
      then have "toDecimal (m div 10) = []" by simp
      then show ?thesis using toDecimal_not_Nil by blast
    next
      case False
      have "toDecimal (m div 10) @ [char_of (48 + m mod 10)] =
          toDecimal (n div 10) @ [char_of (48 + n mod 10)]"
        using "1.prems" by (simp add: toDecimal_large [OF m] toDecimal_large [OF False])
      then have a: "toDecimal (m div 10) = toDecimal (n div 10)"
        and b: "(char_of (48 + m mod 10) :: char) = char_of (48 + n mod 10)" by simp_all
      have "m div 10 = n div 10" by (rule "1.IH" [OF m a])
      moreover have "m mod 10 = n mod 10"
        by (rule char_of_digit_inj [OF _ _ b]) simp_all
      ultimately show ?thesis by (metis div_mult_mod_eq)
    qed
  qed
qed

lemma digit_not_sep: "digit c \<Longrightarrow> c \<noteq> CHR ''_'' \<and> c \<noteq> CHR ''.''"
  by (auto simp: digit_def)

lemma toDecimal_no_sep: "CHR ''_'' \<notin> set (toDecimal t) \<and> CHR ''.'' \<notin> set (toDecimal t)"
  using toDecimal_digits [of t] digit_not_sep by (auto simp: list_all_iff)

lemma stamped_inj:
  assumes "b1 @ CHR ''_'' # toDecimal t1 = b2 @ CHR ''_'' # toDecimal t2"
  shows "t1 = t2"
proof -
  have "b1 = b2 \<and> toDecimal t1 = toDecimal t2"
    using toDecimal_no_sep [of t1] toDecimal_no_sep [of t2] assms
    by (intro cancel_sep [of "CHR ''_''"]) simp_all
  then show ?thesis by (simp add: toDecimal_inj)
qed

lemma newFileName_shape:
  "newFileName name t =
     (removeExtension name @ CHR ''_'' # toDecimal t) @ CHR ''.'' # fileExtension name"
  by (simp add: newFileName_def)

lemma newFileName_inj:
  assumes "newFileName n1 t1 = newFileName n2 t2"
  shows "t1 = t2"
proof -
  have "removeExtension n1 @ CHR ''_'' # toDecimal t1 = removeExtension n2 @ CHR ''_'' # toDecimal t2
      \<and> fileExtension n1 = fileExtension n2"
    using assms fileExtension_no_dot [of n1] fileExtension_no_dot [of n2]
    unfolding newFileName_shape by (intro cancel_sep [of "CHR ''.''"]) simp_all
  then show ?thesis using stamped_inj by blast
qed

lemma removeExtension_newFileName:
  "removeExtension (newFileName name t) =
     (if fileExtension name \<noteq> [] \<and> CHR ''/'' \<notin> set (fileExtension name)
      then removeExtension name @ CHR ''_'' # toDecimal t
      else newFileName name t)"
  unfolding newFileName_shape
  by (rule removeExtension_last_dot) (rule fileExtension_no_dot)

lemma stamped_last_digit: "last (b @ CHR ''_'' # toDecimal t) \<noteq> CHR ''.''"
proof -
  have "last (toDecimal t) \<in> set (toDecimal t)" using toDecimal_not_Nil by simp
  then have "last (toDecimal t) \<noteq> CHR ''.''" using toDecimal_no_sep [of t] by metis
  then show ?thesis using toDecimal_not_Nil by simp
qed

lemma shareable_same_name_inj:
  assumes "getShareableId (newFileName name t1) = getShareableId (newFileName name t2)"
  shows "t1 = t2"
proof -
  have eq: "removeExtension (newFileName name t1) = removeExtension (newFileName name t2)"
    using assms unfolding getShareableId_def by (rule encodeURIComponent_inj)
  show ?thesis
  proof (cases "fileExtension name \<noteq> [] \<and> CHR ''/'' \<notin> set (fileExtension name)")
    case True
    then show ?thesis using eq stamped_inj by (simp add: removeExtension_newFileName)
  next
    case False
    then have "\<And>t. removeExtension (newFileName name t) = newFileName name t"
      unfolding removeExtension_newFileName by auto
    then have "newFileName name t1 = newFileName name t2"
      using eq by simp
    then show ?thesis by (rule newFileName_inj)
  qed
qed

lemma shareable_inj:
  assumes "getShareableId (newFileName n1 t1) = getShareableId (newFileName n2 t2)"
    and "CHR ''/'' \<notin> set n1" and "CHR ''/'' \<notin> set n2"
  shows "t1 = t2"
proof -
  have eq: "removeExtension (newFileName n1 t1) = removeExtension (newFileName n2 t2)"
    using assms(1) unfolding getShareableId_def by (rule encodeURIComponent_inj)
  have s1: "CHR ''/'' \<notin> set (fileExtension n1)" using assms(2) fileExtension_subset by blast
  have s2: "CHR ''/'' \<notin> set (fileExtension n2)" using assms(3) fileExtension_subset by blast
  let ?p1 = "removeExtension n1 @ CHR ''_'' # toDecimal t1"
  let ?p2 = "removeExtension n2 @ CHR ''_'' # toDecimal t2"
  have r1: "fileExtension n1 \<noteq> [] \<Longrightarrow> removeExtension (newFileName n1 t1) = ?p1"
    using s1 by (simp add: removeExtension_newFileName)
  have r2: "fileExtension n2 \<noteq> [] \<Longrightarrow> removeExtension (newFileName n2 t2) = ?p2"
    using s2 by (simp add: removeExtension_newFileName)
  have e1: "fileExtension n1 = [] \<Longrightarrow> removeExtension (newFileName n1 t1) = ?p1 @ [CHR ''.'']"
    unfolding removeExtension_newFileName by (simp add: newFileName_shape)
  have e2: "fileExtension n2 = [] \<Longrightarrow> removeExtension (newFileName n2 t2) = ?p2 @ [CHR ''.'']"
    unfolding removeExtension_newFileName by (simp add: newFileName_shape)
  consider (both) "fileExtension n1 \<noteq> []" "fileExtension n2 \<noteq> []"
    | (none) "fileExtension n1 = []" "fileExtension n2 = []"
    | (left) "fileExtension n1 \<noteq> []" "fileExtension n2 = []"
    | (right) "fileExtension n1 = []" "fileExtension n2 \<noteq> []" by blast
  then show ?thesis
  proof cases
    case both
    then have "?p1 = ?p2" using eq r1 r2 by simp
    then show ?thesis by (rule stamped_inj)
  next
    case none
    then have "?p1 = ?p2" using eq e1 e2 by simp
    then show ?thesis by (rule stamped_inj)
  next
    case left
    then have "?p1 = ?p2 @ [CHR ''.'']" using eq r1 e2 by simp
    then have "last ?p1 = CHR ''.''" by (metis last_snoc)
    then show ?thesis using stamped_last_digit by blast
  next
    case right
    then have "?p1 @ [CHR ''.''] = ?p2" using eq e1 r2 by simp
    then have "last ?p2 = CHR ''.''" by (metis last_snoc)
    then show ?thesis using stamped_last_digit by blast
  qed
qed

lemma fileExtension_last_dot:
  "CHR ''.'' \<notin> set ext \<Longrightarrow> fileExtension (base @ CHR ''.'' # ext) = ext"
  by (simp add: fileExtension_def last_js_split_append js_split_no_sep)

lemma plain_extension:
  assumes "ext \<noteq> []" and "list_all (\<lambda>x. x \<noteq> CHR ''/'' \<and> x \<noteq> CHR ''.'') ext"
  shows "removeExtension (base @ ''.'' @ ext) = base"
    and "fileExtension (base @ ''.'' @ ext) = ext"
proof -
  have nd: "CHR ''.'' \<notin> set ext" and ns: "CHR ''/'' \<notin> set ext"
    using assms(2) by (auto simp: list_all_iff)
  show "removeExtension (base @ ''.'' @ ext) = base"
    using removeExtension_last_dot [OF nd, of base] assms(1) ns by simp
  show "fileExtension (base @ ''.'' @ ext) = ext"
    using fileExtension_last_dot [OF nd, of base] by simp
qed

text \<open>
  C10. \<^verbatim>\<open>uploadVideo\<close> sends the file under the name made of the original name without its
  extension, an underscore, the decimal timestamp, a dot and the original extension: for a
  name \<open>base.ext\<close> that is \<open>base_timestamp.ext\<close>. Two uploads at distinct timestamps get
  distinct names, whatever the two original names are; the identifiers derived from the
  names are distinct when the same file is uploaded twice, and for any two files whose
  names hold no \<open>/\<close> (a file name, as a browser gives it, holds no path separator).
\<close>

theorem upload_names_distinct:
  assumes "t1 \<noteq> t2"
  shows "newFileName name t1 =
           removeExtension name @ ''_'' @ toDecimal t1 @ ''.'' @ fileExtension name \<and>
         (ext \<noteq> [] \<and> list_all (\<lambda>x. x \<noteq> CHR ''/'' \<and> x \<noteq> CHR ''.'') ext \<longrightarrow>
            newFileName (base @ ''.'' @ ext) t1 = base @ ''_'' @ toDecimal t1 @ ''.'' @ ext) \<and>
         newFileName n1 t1 \<noteq> newFileName n2 t2 \<and>
         getShareableId (newFileName name t1) \<noteq> getShareableId (newFileName name t2) \<and>
         (CHR ''/'' \<notin> set n1 \<and> CHR ''/'' \<notin> set n2 \<longrightarrow>
            getShareableId (newFileName n1 t1) \<noteq> getShareableId (newFileName n2 t2))"
proof -
  have a: "newFileName n1 t1 \<noteq> newFileName n2 t2"
    using assms newFileName_inj by blast
  have b: "getShareableId (newFileName name t1) \<noteq> getShareableId (newFileName name t2)"
    using assms shareable_same_name_inj by blast
  have c: "CHR ''/'' \<notin> set n1 \<and> CHR ''/'' \<notin> set n2 \<longrightarrow>
      getShareableId (newFileName n1 t1) \<noteq> getShareableId (newFileName n2 t2)"
    using assms shareable_inj by blast
  have d: "ext \<noteq> [] \<and> list_all (\<lambda>x. x \<noteq> CHR ''/'' \<and> x \<noteq> CHR ''.'') ext \<longrightarrow>
      newFileName (base @ ''.'' @ ext) t1 = base @ ''_'' @ toDecimal t1 @ ''.'' @ ext"
    using plain_extension [of ext base] by (simp add: newFileName_def)
  show ?thesis using a b c d by (simp add: newFileName_def)
qed

theorem upload_names_distinct_witness:
  "(17::nat) \<noteq> 18 \<and>
   newFileName ''clip.mp4'' 17 = ''clip_17.mp4'' \<and>
   newFileName ''clip.mp4'' 17 \<noteq> newFileName ''my clip.mov'' 18 \<and>
   getShareableId (newFileName ''clip.mp4'' 17) \<noteq> getShareableId (newFileName ''clip.mp4'' 18) \<and>
   getShareableId (newFileName ''clip.mp4'' 17) \<noteq> getShareableId (newFileName ''my clip.mov'' 18)"
proof -
  have h: "(17::nat) \<noteq> 18" by simp
  have c: "newFileName ''clip.mp4'' 17 = ''clip_17.mp4''" by code_simp
  have sl: "CHR ''/'' \<notin> set ''clip.mp4'' \<and> CHR ''/'' \<notin> set ''my clip.mov''" by simp
  note w = upload_names_distinct [OF h, of "''clip.mp4''" "''mp4''" "''clip''" "''clip.mp4''"
      "''my clip.mov''"]
  from w sl have
    "newFileName ''clip.mp4'' 17 \<noteq> newFileName ''my clip.mov'' 18 \<and>
     getShareableId (newFileName ''clip.mp4'' 17) \<noteq> getShareableId (newFileName ''clip.mp4'' 18) \<and>
     getShareableId (newFileName ''clip.mp4'' 17) \<noteq> getShareableId (newFileName ''my clip.mov'' 18)"
    by blast
  with h c show ?thesis by blast
qed

section \<open>Navigation to the preview\<close>

lemma length_navigations_checkFinalVideoStatus:
  "length (navigations (checkFinalVideoStatus e f a)) = 1"
proof (induction e f a rule: checkFinalVideoStatus.induct)
  case (1 e f a)
  show ?case
    using 1
    by (subst checkFinalVideoStatus.simps)
       (auto split: response.splits final_video_data.splits simp: navigations_append)
qed

lemma length_navigations_startFinalVideoGeneration:
  "length (navigations (startFinalVideoGeneration e f)) = 1"
  by (simp add: startFinalVideoGeneration_def length_navigations_checkFinalVideoStatus)

lemma length_navigations_checkTranscriptStatus:
  "length (navigations (checkTranscriptStatus e c f a)) \<le> 1"
proof (induction e c f a rule: checkTranscriptStatus.induct)
  case (1 e c f a)
  show ?case
    using 1
    by (subst checkTranscriptStatus.simps)
       (auto split: response.splits sum.splits
          simp: navigations_append length_navigations_startFinalVideoGeneration)
qed

lemma length_navigations_processingEffect:
  "length (navigations (processingEffect e c)) \<le> 1"
  by (simp add: processingEffect_def initiateProcessing_def
      length_navigations_checkTranscriptStatus [simplified] split: option.splits)

lemma navigations_first_ready:
  assumes "a < k" and "k \<le> maxFinalVideoAttempts"
    and "\<forall>j. a < j \<and> j < k \<longrightarrow> \<not> ready (getFinalVideoUrl_res e j)"
    and "getFinalVideoUrl_res e k = Returns (FVObject sid url)"
  shows "navigations (checkFinalVideoStatus e f a) =
           [previewPath (case sid of
                           Some s \<Rightarrow> if s \<noteq> [] then s else getShareableId f
                         | None \<Rightarrow> getShareableId f)]"
  using assms
proof (induction e f a rule: checkFinalVideoStatus.induct)
  case (1 e f a)
  have lt: "\<not> a \<ge> maxFinalVideoAttempts" using "1.prems"(1,2) by simp
  show ?case
  proof (cases "a + 1 = k")
    case True
    then have r: "getFinalVideoUrl_res e (a + 1) = Returns (FVObject sid url)"
      using "1.prems"(4) by simp
    show ?thesis
      by (subst checkFinalVideoStatus.simps)
         (simp only: lt r if_False response.case final_video_data.case navigations.simps)
  next
    case False
    then have ak: "a + 1 < k" using "1.prems"(1) by simp
    then have nr: "\<not> ready (getFinalVideoUrl_res e (a + 1))" using "1.prems"(3) by simp
    have pr: "\<forall>j. a + 1 < j \<and> j < k \<longrightarrow> \<not> ready (getFinalVideoUrl_res e j)"
      using "1.prems"(3) by simp
    show ?thesis
    proof (cases "getFinalVideoUrl_res e (a + 1)")
      case Throws
      have "navigations (checkFinalVideoStatus e f a) =
          navigations (checkFinalVideoStatus e f (a + 1))"
        by (subst checkFinalVideoStatus.simps)
           (simp add: lt Throws navigations_append del: One_nat_def)
      then show ?thesis
        using "1.IH"(1) [OF lt Throws ak "1.prems"(2) pr "1.prems"(4)] by simp
    next
      case (Returns d)
      then have d: "d = FVNull" using nr by (cases d) simp_all
      have "navigations (checkFinalVideoStatus e f a) =
          navigations (checkFinalVideoStatus e f (a + 1))"
        by (subst checkFinalVideoStatus.simps)
           (simp add: lt Returns d navigations_append del: One_nat_def)
      then show ?thesis
        using "1.IH"(2) [OF lt Returns d ak "1.prems"(2) pr "1.prems"(4)] by simp
    qed
  qed
qed

lemma getShareableId_plain:
  assumes "ext \<noteq> []" and "list_all (\<lambda>x. x \<noteq> CHR ''/'' \<and> x \<noteq> CHR ''.'') ext"
  shows "getShareableId (base @ ''.'' @ ext) = encodeURIComponent base"
  by (simp only: getShareableId_def plain_extension(1) [OF assms])

lemma unreserved_hexDigit: "n < 16 \<Longrightarrow> unreserved (hexDigit n)"
  by (auto simp: unreserved_def of_char_hexDigit Let_def)

lemma encodeChar_safe: "x \<in> set (encodeChar c) \<Longrightarrow> unreserved x \<or> x = CHR ''%''"
proof -
  assume x: "x \<in> set (encodeChar c)"
  have lt: "(of_char c :: nat) < 256" by simp
  then have d: "(of_char c :: nat) div 16 < 16" by (simp add: div_less_iff_less_mult)
  have m: "(of_char c :: nat) mod 16 < 16" by simp
  show ?thesis
    using x unreserved_hexDigit [OF d] unreserved_hexDigit [OF m]
    by (auto simp: encodeChar_def split: if_splits)
qed

lemma encodeURIComponent_safe:
  "x \<in> set (encodeURIComponent s) \<Longrightarrow> unreserved x \<or> x = CHR ''%''"
  by (auto simp: encodeURIComponent_def dest: encodeChar_safe)

lemma encodeURIComponent_unreserved:
  "list_all unreserved s \<Longrightarrow> encodeURIComponent s = s"
  by (induction s) (simp_all add: encodeURIComponent_def encodeChar_def)

lemma navigations_exhausted:
  assumes "\<forall>k. 1 \<le> k \<and> k \<le> maxFinalVideoAttempts \<longrightarrow> \<not> ready (getFinalVideoUrl_res e k)"
  shows "navigations (checkFinalVideoStatus e fn 0) = [''/preview/'' @ getShareableId fn]"
  by (rule rendering_exhaustion_facts(3) [OF assms])

text \<open>
  C9, as amended. The shareable identifier is a function of the file name, the URI-encoded
  name without its extension: for a name \<open>base.ext\<close> the encoded \<open>base\<close>, made of unreserved
  characters and \<open>%\<close> escapes only, a string of unreserved characters being its own
  encoding. When the poll that first yields the final video carries a non-empty
  \<^verbatim>\<open>share_id\<close>, the page navigates to \<^verbatim>\<open>/preview/\<close> followed by that identifier, and
  followed by the identifier derived from the file name when the \<^verbatim>\<open>share_id\<close> is absent or
  empty. When no poll yields the final video, it navigates under the identifier derived
  from the file name. A run navigates at most once; under which identifier depends on the
  outcome of the polls.
\<close>

theorem share_id_navigation:
  "(\<forall>x \<in> set (getShareableId fn). unreserved x \<or> x = CHR ''%'') \<and>
   (ext \<noteq> [] \<and> list_all (\<lambda>x. x \<noteq> CHR ''/'' \<and> x \<noteq> CHR ''.'') ext \<longrightarrow>
      getShareableId (base @ ''.'' @ ext) = encodeURIComponent base) \<and>
   (list_all unreserved s \<longrightarrow> encodeURIComponent s = s) \<and>
   (a < k \<and> k \<le> maxFinalVideoAttempts \<and>
    (\<forall>j. a < j \<and> j < k \<longrightarrow> \<not> ready (getFinalVideoUrl_res e j)) \<and>
    getFinalVideoUrl_res e k = Returns (FVObject sid url) \<longrightarrow>
      navigations (checkFinalVideoStatus e fn a) =
        [''/preview/'' @ (case sid of
                            Some s \<Rightarrow> if s \<noteq> [] then s else getShareableId fn
                          | None \<Rightarrow> getShareableId fn)]) \<and>
   ((\<forall>k. 1 \<le> k \<and> k \<le> maxFinalVideoAttempts \<longrightarrow> \<not> ready (getFinalVideoUrl_res e k)) \<longrightarrow>
      navigations (checkFinalVideoStatus e fn 0) = [''/preview/'' @ getShareableId fn]) \<and>
   length (navigations (processingEffect e' c)) \<le> 1"
proof -
  have 1: "\<forall>x \<in> set (getShareableId fn). unreserved x \<or> x = CHR ''%''"
    using encodeURIComponent_safe by (simp add: getShareableId_def)
  have 2: "ext \<noteq> [] \<and> list_all (\<lambda>x. x \<noteq> CHR ''/'' \<and> x \<noteq> CHR ''.'') ext \<longrightarrow>
      getShareableId (base @ ''.'' @ ext) = encodeURIComponent base"
    using getShareableId_plain [of ext base] by blast
  have 3: "list_all unreserved s \<longrightarrow> encodeURIComponent s = s"
    using encodeURIComponent_unreserved by blast
  have 4: "a < k \<and> k \<le> maxFinalVideoAttempts \<and>
    (\<forall>j. a < j \<and> j < k \<longrightarrow> \<not> ready (getFinalVideoUrl_res e j)) \<and>
    getFinalVideoUrl_res e k = Returns (FVObject sid url) \<longrightarrow>
      navigations (checkFinalVideoStatus e fn a) =
        [''/preview/'' @ (case sid of
                            Some s \<Rightarrow> if s \<noteq> [] then s else getShareableId fn
                          | None \<Rightarrow> getShareableId fn)]"
    using navigations_first_ready [of a k e sid url fn] by (simp add: previewPath_def)
  have 5: "(\<forall>k. 1 \<le> k \<and> k \<le> maxFinalVideoAttempts \<longrightarrow> \<not> ready (getFinalVideoUrl_res e k)) \<longrightarrow>
      navigations (checkFinalVideoStatus e fn 0) = [''/preview/'' @ getShareableId fn]"
    using navigations_exhausted [of e fn] by blast
  have 6: "length (navigations (processingEffect e' c)) \<le> 1"
    by (rule length_navigations_processingEffect)
  from 1 2 3 4 5 6 show ?thesis by blast
qed

lemma getShareableId_my_clip: "getShareableId ''my clip.mp4'' = ''my%20clip''"
  by code_simp

theorem share_id_navigation_witness:
  "(0::nat) < 3 \<and> 3 \<le> maxFinalVideoAttempts \<and>
   \<not> ready (getFinalVideoUrl_res env_degraded 1) \<and>
   \<not> ready (getFinalVideoUrl_res env_degraded 2) \<and>
   getFinalVideoUrl_res env_degraded 3 = Returns (FVObject (Some ''xyz'') ''/final/a.mp4'') \<and>
   navigations (checkFinalVideoStatus env_degraded ''a.mp4'' 0) = [''/preview/xyz''] \<and>
   \<not> ready (getFinalVideoUrl_res env_render_timeout 1) \<and>
   \<not> ready (getFinalVideoUrl_res env_render_timeout 30) \<and>
   navigations (checkFinalVideoStatus env_render_timeout ''a.mp4'' 0) = [''/preview/a''] \<and>
   getShareableId ''my clip.mp4'' = ''my%20clip'' \<and>
   encodeURIComponent ''my clip'' = ''my%20clip'' \<and>
   CHR '' '' \<notin> set (getShareableId ''my clip.mp4'') \<and>
   list_all unreserved ''clip_17'' \<and> encodeURIComponent ''clip_17'' = ''clip_17'' \<and>
   length (navigations (processingEffect env_degraded r0)) \<le> 1"
proof -
  have h1: "(0::nat) < 3" by simp
  have h2: "3 \<le> maxFinalVideoAttempts" by (simp add: maxFinalVideoAttempts_def)
  have h3: "\<forall>j. 0 < j \<and> j < 3 \<longrightarrow> \<not> ready (getFinalVideoUrl_res env_degraded j)"
    by (simp add: env_degraded_def)
  have h4: "getFinalVideoUrl_res env_degraded 3 = Returns (FVObject (Some ''xyz'') ''/final/a.mp4'')"
    by (simp add: env_degraded_def)
  have h5: "\<not> ready (getFinalVideoUrl_res env_degraded 1)"
    "\<not> ready (getFinalVideoUrl_res env_degraded 2)"
    "\<not> ready (getFinalVideoUrl_res env_render_timeout 1)"
    "\<not> ready (getFinalVideoUrl_res env_render_timeout 30)"
    by (simp_all add: env_degraded_def env_render_timeout_def)
  have h6: "''mp4'' \<noteq> [] \<and> list_all (\<lambda>x. x \<noteq> CHR ''/'' \<and> x \<noteq> CHR ''.'') ''mp4''" by simp
  have h7: "list_all unreserved ''clip_17''" by (simp add: unreserved_def)
  have sp: "\<not> (unreserved CHR '' '' \<or> CHR '' '' = CHR ''%'')" by (simp add: unreserved_def)
  note w0 = share_id_navigation [of "''my clip.mp4''" "''mp4''" "''my clip''" "''clip_17''" 0 3
      env_degraded "Some ''xyz''" "''/final/a.mp4''" env_degraded r0]
  note w1 = share_id_navigation [of "''a.mp4''" "''mp4''" "''my clip''" "''clip_17''" 0 3
      env_degraded "Some ''xyz''" "''/final/a.mp4''" env_degraded r0]
  note w2 = share_id_navigation [of "''a.mp4''" "''mp4''" "''my clip''" "''clip_17''" 0 3
      env_render_timeout "Some ''xyz''" "''/final/a.mp4''" env_degraded r0]
  have a: "navigations (checkFinalVideoStatus env_degraded ''a.mp4'' 0) = [''/preview/xyz'']"
    using w1 h1 h2 h3 h4 by simp
  have b: "navigations (checkFinalVideoStatus env_render_timeout ''a.mp4'' 0) = [''/preview/a'']"
    using w2 env_render_timeout_polls by (simp add: getShareableId_a)
  have c: "encodeURIComponent ''my clip'' = ''my%20clip''"
    using w1 h6 getShareableId_my_clip by simp
  have d: "CHR '' '' \<notin> set (getShareableId ''my clip.mp4'')"
    using w0 sp by blast
  have e: "encodeURIComponent ''clip_17'' = ''clip_17''"
    using w1 h7 by blast
  have f: "length (navigations (processingEffect env_degraded r0)) \<le> 1"
    using w1 by blast
  from a b c d e f h1 h2 h4 h5 h7 getShareableId_my_clip show ?thesis by blast
qed

lemma run_env_ready_navigations: "navigations (processingEffect env_ready r0) = [''/preview/xyz'']"
  by code_simp

text \<open>
  The claim as stated (the identifier a job is shared under never changes once assigned)
  is false for the file \<open>a.mp4\<close>: the run whose polls are exhausted navigates to
  \<open>/preview/a\<close>, the run whose poll yields the server's \<^verbatim>\<open>share_id\<close> navigates to
  \<open>/preview/xyz\<close>.
\<close>

theorem share_id_counterexample:
  "filename r0 = Some ''a.mp4'' \<and>
   navigations (processingEffect env_render_timeout r0) = [''/preview/a''] \<and>
   navigations (processingEffect env_ready r0) = [''/preview/xyz''] \<and>
   ''/preview/a'' \<noteq> ''/preview/xyz''"
proof -
  have a: "navigations (processingEffect env_render_timeout r0) = [''/preview/a'']"
    unfolding run_env_render_timeout navigations_append
      rendering_exhaustion_facts(3) [OF env_render_timeout_polls]
    by (simp add: transcriptFetched_def getShareableId_a)
  have f: "filename r0 = Some ''a.mp4''" by (simp add: r0_def initialRender_def)
  from a f run_env_ready_navigations show ?thesis by simp
qed

section \<open>A failed B-roll call\<close>

lemma no_stage_call_checkFinalVideoStatus:
  "list_all (\<lambda>ev. \<not> stage_call ev) (checkFinalVideoStatus e f a)"
proof (induction e f a rule: checkFinalVideoStatus.induct)
  case (1 e f a)
  show ?case
    using 1
    by (subst checkFinalVideoStatus.simps)
       (auto split: response.splits final_video_data.splits)
qed







section \<open>Order of the stages\<close>

lemma ordered_after_Nil: "ordered_after t b []"
  by (simp add: ordered_after_def)

lemma ordered_after_Cons:
  "ordered_after t b (x # evs) \<longleftrightarrow>
     ((\<exists>p ok. x = Invoke (GetBRoll p) ok) \<longrightarrow> t) \<and>
     ((\<exists>ok. x = Invoke GenerateFinalVideo ok) \<longrightarrow> b) \<and>
     ordered_after (t \<or> x = Invoke GetTranscript True) (b \<or> (\<exists>p ok. x = Invoke (GetBRoll p) ok)) evs"
  (is "?L \<longleftrightarrow> ?R")
proof
  assume L: ?L
  have h: "((\<exists>p ok. x = Invoke (GetBRoll p) ok) \<longrightarrow> t) \<and>
     ((\<exists>ok. x = Invoke GenerateFinalVideo ok) \<longrightarrow> b)"
    using L [unfolded ordered_after_def, rule_format, of "[]" x evs] by simp
  have "ordered_after (t \<or> x = Invoke GetTranscript True)
      (b \<or> (\<exists>p ok. x = Invoke (GetBRoll p) ok)) evs"
    unfolding ordered_after_def
  proof (intro allI impI)
    fix pre ev post
    assume "evs = pre @ ev # post"
    then have "x # evs = (x # pre) @ ev # post" by simp
    from L [unfolded ordered_after_def, rule_format, OF this]
    show "((\<exists>p ok. ev = Invoke (GetBRoll p) ok) \<longrightarrow>
            (t \<or> x = Invoke GetTranscript True) \<or> Invoke GetTranscript True \<in> set pre) \<and>
          ((\<exists>ok. ev = Invoke GenerateFinalVideo ok) \<longrightarrow>
            (b \<or> (\<exists>p ok. x = Invoke (GetBRoll p) ok)) \<or>
            (\<exists>p ok. Invoke (GetBRoll p) ok \<in> set pre))"
      by auto
  qed
  with h show ?R by simp
next
  assume R: ?R
  show ?L unfolding ordered_after_def
  proof (intro allI impI)
    fix pre ev post
    assume eq: "x # evs = pre @ ev # post"
    show "((\<exists>p ok. ev = Invoke (GetBRoll p) ok) \<longrightarrow> t \<or> Invoke GetTranscript True \<in> set pre) \<and>
          ((\<exists>ok. ev = Invoke GenerateFinalVideo ok) \<longrightarrow>
             b \<or> (\<exists>p ok. Invoke (GetBRoll p) ok \<in> set pre))"
    proof (cases pre)
      case Nil
      then have "ev = x" using eq by simp
      then show ?thesis using R by simp
    next
      case (Cons y pre')
      then have y: "y = x" and evs: "evs = pre' @ ev # post" using eq by simp_all
      from R have "ordered_after (t \<or> x = Invoke GetTranscript True)
          (b \<or> (\<exists>p ok. x = Invoke (GetBRoll p) ok)) evs" by simp
      from this [unfolded ordered_after_def, rule_format, OF evs]
      show ?thesis unfolding Cons y by auto
    qed
  qed
qed

lemma ordered_after_mono:
  "ordered_after t b evs \<Longrightarrow> (t \<longrightarrow> t') \<Longrightarrow> (b \<longrightarrow> b') \<Longrightarrow> ordered_after t' b' evs"
  unfolding ordered_after_def by blast

lemma ordered_after_no_stage_call:
  "list_all (\<lambda>ev. \<not> stage_call ev) evs \<Longrightarrow> ordered_after t b evs"
proof (induction evs arbitrary: t b)
  case Nil
  show ?case by (rule ordered_after_Nil)
next
  case (Cons x evs)
  then have "\<not> stage_call x" and "ordered_after (t \<or> x = Invoke GetTranscript True)
      (b \<or> (\<exists>p ok. x = Invoke (GetBRoll p) ok)) evs"
    by simp_all
  then show ?case unfolding ordered_after_Cons by auto
qed

lemma ordered_startFinalVideoGeneration:
  "ordered_after t True (startFinalVideoGeneration e f)"
  unfolding startFinalVideoGeneration_def
  by (auto simp: ordered_after_Cons ordered_after_Nil
      intro: ordered_after_no_stage_call no_stage_call_checkFinalVideoStatus)

lemma ex_bool: "\<exists>x::bool. x" "\<exists>x::bool. \<not> x"
  by auto

lemma ordered_checkTranscriptStatus:
  "ordered_after False False (checkTranscriptStatus e c f a)"
proof (induction e c f a rule: checkTranscriptStatus.induct)
  case (1 e c f a)
  show ?case
  proof (cases "a \<ge> maxAttempts")
    case True
    then have "checkTranscriptStatus e c f a = transcriptExhausted"
      by (subst checkTranscriptStatus.simps) (simp add: transcriptExhausted_def)
    then show ?thesis
      by (simp add: transcriptExhausted_def ordered_after_Cons ordered_after_Nil)
  next
    case False
    note eqs = checkTranscriptStatus_cases [OF False, of e]
    show ?thesis
    proof (cases "getTranscript_res e (a + 1)")
      case Throws
      show ?thesis
        unfolding eqs(1) [OF Throws]
        using "1.IH"(1) [OF False Throws]
        by (simp add: transcriptRetry_def ordered_after_Cons)
    next
      case (Returns t)
      show ?thesis
      proof (cases "isBrollProcessing c")
        case True
        show ?thesis
          unfolding eqs(2) [OF Returns True]
          by (simp add: transcriptFetched_def ordered_after_Cons ordered_after_Nil)
      next
        case nb: False
        show ?thesis
        proof (cases "transcriptText t")
          case (Inl err)
          have "ordered_after True False (checkTranscriptStatus e c f (a + 1))"
            using "1.IH"(2) [OF False Returns nb Inl] by (rule ordered_after_mono) simp_all
          then show ?thesis
            unfolding eqs(3) [OF Returns nb Inl]
            by (simp add: transcriptFetched_def ordered_after_Cons)
        next
          case (Inr tx)
          show ?thesis
          proof (cases "getBRoll_res e (brollPrompt tx)")
            case True
            show ?thesis
              unfolding eqs(4) [OF Returns nb Inr True]
              using ordered_startFinalVideoGeneration [of True e f]
              by (simp add: transcriptFetched_def ordered_after_Cons ex_bool)
          next
            case False
            show ?thesis
              unfolding eqs(5) [OF Returns nb Inr False]
              using ordered_startFinalVideoGeneration [of True e f]
              by (simp add: transcriptFetched_def ordered_after_Cons ex_bool)
          qed
        qed
      qed
    qed
  qed
qed

lemma ordered_processingEffect: "ordered_after False False (processingEffect e c)"
  using ordered_checkTranscriptStatus [of e c]
  by (auto simp: processingEffect_def initiateProcessing_def ordered_after_Cons ordered_after_Nil
      split: option.splits)

text \<open>
  C8. Within one run the stages come in pipeline order: wherever the run issues a B-roll
  call, a transcript fetch has succeeded before it, and wherever it issues the call that
  starts the final video, a B-roll call has been made (and has reported its result, success
  or failure) before it.
\<close>

theorem stages_in_pipeline_order:
  assumes "processingEffect e c = pre @ ev # post"
  shows "((\<exists>p ok. ev = Invoke (GetBRoll p) ok) \<longrightarrow> Invoke GetTranscript True \<in> set pre) \<and>
         ((\<exists>ok. ev = Invoke GenerateFinalVideo ok) \<longrightarrow>
            (\<exists>p ok. Invoke (GetBRoll p) ok \<in> set pre))"
  using ordered_processingEffect [of e c, unfolded ordered_after_def, rule_format, OF assms]
  by simp

theorem stages_in_pipeline_order_witness:
  "processingEffect env_degraded r0 =
     take 15 (processingEffect env_degraded r0) @
     Invoke GenerateFinalVideo True # drop 16 (processingEffect env_degraded r0) \<and>
   (\<exists>p ok. Invoke (GetBRoll p) ok \<in> set (take 15 (processingEffect env_degraded r0))) \<and>
   processingEffect env_degraded r0 =
     take 12 (processingEffect env_degraded r0) @
     Invoke (GetBRoll ''High quality visual scene representing: Hi there'') False #
     drop 13 (processingEffect env_degraded r0) \<and>
   Invoke GetTranscript True \<in> set (take 12 (processingEffect env_degraded r0))"
proof -
  have h1: "processingEffect env_degraded r0 =
     take 15 (processingEffect env_degraded r0) @
     Invoke GenerateFinalVideo True # drop 16 (processingEffect env_degraded r0)"
    by code_simp
  have h2: "processingEffect env_degraded r0 =
     take 12 (processingEffect env_degraded r0) @
     Invoke (GetBRoll ''High quality visual scene representing: Hi there'') False #
     drop 13 (processingEffect env_degraded r0)"
    by code_simp
  from stages_in_pipeline_order [OF h1] stages_in_pipeline_order [OF h2] h1 h2
  show ?thesis by blast
qed

section \<open>Starting the processing twice\<close>

text \<open>
  C4. The guard of \<^verbatim>\<open>initiateProcessing\<close> reads \<^verbatim>\<open>isProcessingStarted\<close> as the render that
  created the effect saw it. When the effect of the first render runs twice, before the
  update of the flag is committed, both runs see \<^const>\<open>False\<close> and every adapter is called
  twice (the calls of the two runs are listed one run after the other; their number does
  not depend on how the runs interleave). Only by a render that follows the commit is the
  flag seen as set, and the effect of that render does nothing.
\<close>

theorem duplicate_initiation_repeats_calls:
  "\<not> isProcessingStarted r0 \<and>
   invocations (processingEffect env_ready r0 @ processingEffect env_ready r0) =
     [(GenerateCaptions, True), (GetTranscript, True),
      (GetBRoll ''High quality visual scene representing: Hi there'', True),
      (GenerateFinalVideo, True), (GetFinalVideoUrl, True),
      (GenerateCaptions, True), (GetTranscript, True),
      (GetBRoll ''High quality visual scene representing: Hi there'', True),
      (GenerateFinalVideo, True), (GetFinalVideoUrl, True)] \<and>
   isProcessingStarted (commit r0 (processingEffect env_ready r0)) \<and>
   processingEffect env_ready (commit r0 (processingEffect env_ready r0)) = []"
  by code_simp

end
